theory Spec2Isabelle
  imports Complex_Main "HOL-Library.AList" "HOL-Library.Monad_Syntax"
begin

section \<open>The footprint miss-ratio-curve profiler and slab reallocation solver\<close>

text \<open>
  This theory embeds the class \<open>FootprintMRC\<close> (the mutex-protected version): its ring
  buffer (\<open>feed\<close>), the window statistics (\<open>calculateWindowStats\<close>), the footprint
  values (\<open>calculateFpValues\<close>), the per-class miss ratio curves (\<open>queryMrc\<close>), the
  lookup \<open>_getMissRatio\<close> and the dynamic program \<open>solveSlabReallocation\<close>.

  Conventions of the embedding:
  \<^item> \<open>size_t\<close> values are natural numbers and \<open>double\<close> values are real numbers; the
    infinity of the cost tables is \<open>None\<close> in a \<open>real option\<close>. The counters, indices and
    sums of the code stay in the range of \<open>size_t\<close> in every call that returns, since
    containers of their size are allocated; the one \<open>size_t\<close> value for which this does
    not hold, the product \<open>slabCount * allocsPerSlab\<close> of \<open>queryMrc\<close>, wraps around at
    \<open>2 ^ 64\<close> as it does in the code;
  \<^item> \<open>std::sort\<close> is a parameter of the solver, any routine that returns an ascending
    permutation of its input;
  \<^item> \<open>std::map\<close>, \<open>std::unordered_map\<close> and \<open>std::unordered_set\<close> are association
    lists and duplicate-free lists: \<open>m[k] = v\<close> is \<open>AList.update k v m\<close>, \<open>m.find(k)\<close>
    and \<open>m.count(k)\<close> are \<open>map_of m k\<close>, and \<open>m.at(k)\<close> is \<open>map_of m k\<close> in the option
    monad, \<open>None\<close> standing for the \<open>std::out_of_range\<close> it throws;
  \<^item> the lock only serialises \<open>feed\<close> against the snapshot; the embedding is the
    sequential behaviour of one call at a time.
\<close>

subsection \<open>Data model\<close>

type_synonym ClassId = int
type_synonym KeyInt = nat

datatype error = InvalidArgument

record FootprintMRC =
  circularBuffer :: "(KeyInt \<times> ClassId) list"
  circularBufferMaxLen :: nat
  currentBufferSize :: nat
  bufferHeadIndex :: nat

subsection \<open>Constructor, \<open>feed\<close> and \<open>resetWindowAnalysis\<close>\<close>

text \<open>
  The constructor throws \<open>std::invalid_argument\<close> for \<open>k < 1\<close>; otherwise the buffer is
  resized to \<open>k\<close> value-initialised tuples.
\<close>

definition new_FootprintMRC :: "nat \<Rightarrow> error + FootprintMRC" where
  "new_FootprintMRC k =
     (if k < 1 then Inl InvalidArgument
      else Inr \<lparr>circularBuffer = replicate k (0, 0), circularBufferMaxLen = k,
                currentBufferSize = 0, bufferHeadIndex = 0\<rparr>)"

text \<open>
  \<open>feed\<close> first turns the key text into a \<open>KeyInt\<close> (\<open>std::stoull\<close>, with
  \<open>std::hash\<close> as the fallback when the conversion throws). Both are library functions;
  the conversion is the parameter \<open>toKeyInt\<close>, which always yields a value.
\<close>

definition feed :: "('key \<Rightarrow> KeyInt) \<Rightarrow> 'key \<Rightarrow> ClassId \<Rightarrow> FootprintMRC \<Rightarrow> FootprintMRC" where
  "feed toKeyInt key classId st =
     (if circularBuffer st = [] \<or> circularBufferMaxLen st = 0 then st
      else
        let keyInt = toKeyInt key;
            currentHead = (if bufferHeadIndex st \<ge> circularBufferMaxLen st then 0
                           else bufferHeadIndex st)
        in st\<lparr>circularBuffer := (circularBuffer st)[currentHead := (keyInt, classId)],
               bufferHeadIndex := (currentHead + 1) mod circularBufferMaxLen st,
               currentBufferSize := (if currentBufferSize st < circularBufferMaxLen st
                                     then currentBufferSize st + 1
                                     else currentBufferSize st)\<rparr>)"

definition resetWindowAnalysis :: "FootprintMRC \<Rightarrow> FootprintMRC" where
  "resetWindowAnalysis st = st\<lparr>currentBufferSize := 0, bufferHeadIndex := 0\<rparr>"

text \<open>A sequence of \<open>feed\<close> calls, oldest first.\<close>

definition feeds :: "('key \<Rightarrow> KeyInt) \<Rightarrow> ('key \<times> ClassId) list \<Rightarrow> FootprintMRC \<Rightarrow> FootprintMRC" where
  "feeds toKeyInt accesses st = fold (\<lambda>(key, classId). feed toKeyInt key classId) accesses st"

subsection \<open>\<open>_getMissRatio\<close>\<close>

text \<open>
  \<open>mrcPointsDict.rbegin()->first\<close> is the largest key of the ordered map.
\<close>

definition getMissRatio :: "(nat \<times> real) list \<Rightarrow> nat \<Rightarrow> real" where
  "getMissRatio mrcPointsDict slabCount =
     (if slabCount = 0 then 1
      else case map_of mrcPointsDict slabCount of
        Some v \<Rightarrow> v
      | None \<Rightarrow>
          let maxProfiledSlabCount =
                (if mrcPointsDict \<noteq> [] then Max (set (map fst mrcPointsDict)) else 0)
          in if slabCount > maxProfiledSlabCount
             then (case map_of mrcPointsDict maxProfiledSlabCount of Some v \<Rightarrow> v | None \<Rightarrow> 0)
             else 1)"

subsection \<open>\<open>calculateWindowStats\<close>\<close>

text \<open>
  \<open>m[k]\<close> on an unordered map reads the stored value, or the value-initialised one it
  inserts when the key is absent; \<open>m.emplace(k, v)\<close> inserts only when \<open>k\<close> is absent.
\<close>

definition subscript :: "'v \<Rightarrow> ('k \<times> 'v) list \<Rightarrow> 'k \<Rightarrow> 'v" where
  "subscript d m k = (case map_of m k of Some v \<Rightarrow> v | None \<Rightarrow> d)"

definition emplace :: "'k \<Rightarrow> 'v \<Rightarrow> ('k \<times> 'v) list \<Rightarrow> ('k \<times> 'v) list" where
  "emplace k v m = (case map_of m k of None \<Rightarrow> m @ [(k, v)] | Some _ \<Rightarrow> m)"

text \<open>
  Both passes walk the snapshot from \<open>startIndex\<close> for \<open>snapshotSize\<close> positions and
  leave the loop at the first position whose index fails the defensive bounds check.
\<close>

definition window_entries ::
  "(KeyInt \<times> ClassId) list \<Rightarrow> nat \<Rightarrow> nat \<Rightarrow> nat \<Rightarrow> (KeyInt \<times> ClassId) list" where
  "window_entries bufferSnapshot startIndex snapshotSize snapshotMaxLen =
     map (\<lambda>i. bufferSnapshot ! ((startIndex + i) mod snapshotMaxLen))
       (takeWhile
          (\<lambda>i. \<not> ((startIndex + i) mod snapshotMaxLen \<ge> snapshotMaxLen
                   \<or> (startIndex + i) mod snapshotMaxLen \<ge> length bufferSnapshot))
          [0..<snapshotSize])"

text \<open>The entries both passes see, in logical order (empty on the early exit).\<close>

definition snapshot_entries :: "FootprintMRC \<Rightarrow> (KeyInt \<times> ClassId) list" where
  "snapshot_entries st =
     (let snapshotSize = currentBufferSize st;
          snapshotHeadIndex = bufferHeadIndex st;
          snapshotMaxLen = circularBufferMaxLen st;
          bufferSnapshot = (if snapshotSize > 0 \<and> circularBuffer st \<noteq> []
                            then circularBuffer st else [])
      in if snapshotSize = 0 \<or> bufferSnapshot = [] then []
         else
           let snapshotSize = (if snapshotSize > snapshotMaxLen then snapshotMaxLen
                               else snapshotSize);
               snapshotHeadIndex = (if snapshotHeadIndex \<ge> snapshotMaxLen then 0
                                    else snapshotHeadIndex);
               startIndex = (if snapshotSize < snapshotMaxLen then 0 else snapshotHeadIndex)
           in window_entries bufferSnapshot startIndex snapshotSize snapshotMaxLen)"

text \<open>Pass 1: \<open>nByClass[classId]++\<close> and \<open>uniqueKeysPerClass[classId].insert(keyInt)\<close>.\<close>

definition pass1_step ::
  "KeyInt \<times> ClassId \<Rightarrow> (ClassId \<times> nat) list \<times> (ClassId \<times> KeyInt list) list
     \<Rightarrow> (ClassId \<times> nat) list \<times> (ClassId \<times> KeyInt list) list" where
  "pass1_step entry acc =
     (case entry of (keyInt, classId) \<Rightarrow>
      case acc of (nByClass, uniqueKeysPerClass) \<Rightarrow>
        (AList.update classId (subscript 0 nByClass classId + 1) nByClass,
         AList.update classId (List.insert keyInt (subscript [] uniqueKeysPerClass classId))
           uniqueKeysPerClass))"

text \<open>Pass 2: the state of the forward pass over the snapshot.\<close>

record window_scan =
  currentAccessIndex :: "(ClassId \<times> nat) list"
  keyToFirstAccess :: "(ClassId \<times> (KeyInt \<times> nat) list) list"
  keyToLastAccess :: "(ClassId \<times> (KeyInt \<times> nat) list) list"
  reuseTimeHistogramByClass :: "(ClassId \<times> nat list) list"

definition pass2_step :: "KeyInt \<times> ClassId \<Rightarrow> window_scan \<Rightarrow> window_scan" where
  "pass2_step entry s =
     (case entry of (keyInt, classId) \<Rightarrow>
        let local_idx_for_current_access = subscript 0 (currentAccessIndex s) classId;
            firstAccessForClass = subscript [] (keyToFirstAccess s) classId;
            lastAccessForClass = subscript [] (keyToLastAccess s) classId;
            reuseHistogramForClass = subscript [] (reuseTimeHistogramByClass s) classId;
            firstAccessForClass' = emplace keyInt local_idx_for_current_access firstAccessForClass;
            lastAndReuse =
              (case map_of lastAccessForClass keyInt of
                 None \<Rightarrow>
                   (lastAccessForClass @ [(keyInt, local_idx_for_current_access)],
                    reuseHistogramForClass)
               | Some prevAccessIndex \<Rightarrow>
                   let reuseTime = local_idx_for_current_access - prevAccessIndex
                   in (AList.update keyInt local_idx_for_current_access lastAccessForClass,
                       reuseHistogramForClass
                         [reuseTime := reuseHistogramForClass ! reuseTime + 1]))
        in \<lparr>currentAccessIndex =
               AList.update classId (local_idx_for_current_access + 1) (currentAccessIndex s),
             keyToFirstAccess = AList.update classId firstAccessForClass' (keyToFirstAccess s),
             keyToLastAccess = AList.update classId (fst lastAndReuse) (keyToLastAccess s),
             reuseTimeHistogramByClass =
               AList.update classId (snd lastAndReuse) (reuseTimeHistogramByClass s)\<rparr>)"

text \<open>
  The counting sort of one class: a count array of \<open>n + 2\<close> cells, filled from the
  first-access times plus one (respectively from \<open>n\<close> minus the last-access times),
  and read back in ascending order.
\<close>

definition firstAccessCount :: "(KeyInt \<times> nat) list \<Rightarrow> nat \<Rightarrow> nat list" where
  "firstAccessCount keyToFirstForClass n =
     fold (\<lambda>(keyInt, firstAccessTime) cnt.
             let firstAccess1Indexed = firstAccessTime + 1
             in if firstAccess1Indexed \<le> n + 1
                then cnt[firstAccess1Indexed := cnt ! firstAccess1Indexed + 1] else cnt)
       keyToFirstForClass (replicate (n + 2) 0)"

definition lastAccessCount :: "(KeyInt \<times> nat) list \<Rightarrow> nat \<Rightarrow> nat list" where
  "lastAccessCount keyToLastForClass n =
     fold (\<lambda>(keyInt, lastAccessTime) cnt.
             let reverseLastAccess = n - lastAccessTime
             in if reverseLastAccess \<le> n
                then cnt[reverseLastAccess := cnt ! reverseLastAccess + 1] else cnt)
       keyToLastForClass (replicate (n + 2) 0)"

definition firstAccessVector :: "(KeyInt \<times> nat) list \<Rightarrow> nat \<Rightarrow> nat list" where
  "firstAccessVector keyToFirstForClass n =
     concat (map (\<lambda>accessTime. replicate (firstAccessCount keyToFirstForClass n ! accessTime) accessTime)
               [1..<n + 2])"

definition lastAccessVector :: "(KeyInt \<times> nat) list \<Rightarrow> nat \<Rightarrow> nat list" where
  "lastAccessVector keyToLastForClass n =
     concat (map (\<lambda>reverseTime. replicate (lastAccessCount keyToLastForClass n ! reverseTime) reverseTime)
               [0..<n + 1])"

type_synonym window_stats =
  "(ClassId \<times> nat list) list \<times> (ClassId \<times> nat list) list \<times> (ClassId \<times> nat list) list
   \<times> (ClassId \<times> nat) list \<times> (ClassId \<times> nat) list"

text \<open>
  The statistics of a list of entries: the tuple (\<open>firstAccessTimesByClass\<close>,
  \<open>lastAccessTimesByClass\<close>, \<open>reuseTimeHistogramByClass\<close>, \<open>nByClass\<close>, \<open>mByClass\<close>).
  The histogram of a class is allocated with \<open>n\<close> zero cells before pass 2.
\<close>

definition window_stats_of :: "(KeyInt \<times> ClassId) list \<Rightarrow> window_stats" where
  "window_stats_of entries =
     (let p1 = fold pass1_step entries ([], []);
          nByClass = fst p1;
          uniqueKeysPerClass = snd p1;
          mByClass = map (\<lambda>(classId, uniqueKeys). (classId, length uniqueKeys)) uniqueKeysPerClass;
          scan = fold pass2_step entries
                   \<lparr>currentAccessIndex = [], keyToFirstAccess = [], keyToLastAccess = [],
                    reuseTimeHistogramByClass =
                      map (\<lambda>(classId, n). (classId, replicate n 0)) nByClass\<rparr>;
          firstAccessTimesByClass =
            map (\<lambda>(classId, n).
                   (classId, firstAccessVector (subscript [] (keyToFirstAccess scan) classId) n))
              nByClass;
          lastAccessTimesByClass =
            map (\<lambda>(classId, n).
                   (classId, lastAccessVector (subscript [] (keyToLastAccess scan) classId) n))
              nByClass
      in (firstAccessTimesByClass, lastAccessTimesByClass, reuseTimeHistogramByClass scan,
          nByClass, mByClass))"

definition calculateWindowStats :: "FootprintMRC \<Rightarrow> window_stats" where
  "calculateWindowStats st =
     (if currentBufferSize st = 0 \<or> circularBuffer st = [] then ([], [], [], [], [])
      else window_stats_of (snapshot_entries st))"

subsection \<open>\<open>calculateFpValues\<close>\<close>

text \<open>
  The two suffix-sum arrays have \<open>maxT + 2\<close> cells. The first loop stores
  \<open>t * count\<close> and \<open>count\<close> at every reuse time \<open>t\<close> in \<open>[1, maxT]\<close> with a positive
  count; the second runs \<open>t\<close> from \<open>maxT\<close> down to \<open>1\<close> (its two bounds checks hold for
  every such \<open>t\<close>, the arrays having \<open>maxT + 2\<close> cells).
\<close>

definition suffix_init :: "nat list \<Rightarrow> nat \<Rightarrow> real list \<times> real list" where
  "suffix_init reuseTimeHistogram maxT =
     fold (\<lambda>reuseTime (sumTrSuffix, sumRSuffix).
             let count = reuseTimeHistogram ! reuseTime
             in if count > 0 \<and> reuseTime > 0 \<and> reuseTime \<le> maxT
                   \<and> reuseTime < length sumTrSuffix
                then (sumTrSuffix[reuseTime := real reuseTime * real count],
                      sumRSuffix[reuseTime := real count])
                else (sumTrSuffix, sumRSuffix))
       [0..<length reuseTimeHistogram]
       (replicate (maxT + 2) 0, replicate (maxT + 2) 0)"

definition suffix_sums :: "nat list \<Rightarrow> nat \<Rightarrow> real list \<times> real list" where
  "suffix_sums reuseTimeHistogram maxT =
     fold (\<lambda>t (sumTrSuffix, sumRSuffix).
             (sumTrSuffix[t := sumTrSuffix ! t + sumTrSuffix ! (t + 1)],
              sumRSuffix[t := sumRSuffix ! t + sumRSuffix ! (t + 1)]))
       (rev [1..<maxT + 1])
       (suffix_init reuseTimeHistogram maxT)"

text \<open>
  The inner \<open>while\<close> loop of the main computation: the pointer skips the values that are
  at most \<open>w\<close>, taking them out of the running sum and count.
\<close>

function advance :: "nat list \<Rightarrow> nat \<Rightarrow> nat \<times> real \<times> nat \<Rightarrow> nat \<times> real \<times> nat" where
  "advance vals w (ptr, currentSum, currentCount) =
     (if ptr < length vals \<and> vals ! ptr \<le> w
      then advance vals w (ptr + 1, currentSum - real (vals ! ptr), currentCount - 1)
      else (ptr, currentSum, currentCount))"
  by pat_completeness auto
termination
  by (relation "measure (\<lambda>(vals, w, ptr, s, c). length vals - ptr)") auto

definition fp_step ::
  "nat list \<Rightarrow> nat list \<Rightarrow> real list \<times> real list \<Rightarrow> nat \<Rightarrow> nat \<Rightarrow> nat
     \<Rightarrow> (nat \<times> real \<times> nat) \<times> (nat \<times> real \<times> nat) \<times> real list
     \<Rightarrow> (nat \<times> real \<times> nat) \<times> (nat \<times> real \<times> nat) \<times> real list" where
  "fp_step fValues1Indexed lValues1Indexed suffixes n m w acc =
     (case acc of (fState, lState, fpValues) \<Rightarrow>
        let maxT = n - 1;
            sumTrSuffix = fst suffixes;
            sumRSuffix = snd suffixes;
            fState' = advance fValues1Indexed w fState;
            fW = fst (snd fState') - real w * real (snd (snd fState'));
            lState' = advance lValues1Indexed w lState;
            lW = fst (snd lState') - real w * real (snd (snd lState'));
            rW = (if w + 1 \<le> maxT \<and> w + 1 < length sumTrSuffix
                  then sumTrSuffix ! (w + 1) - real w * sumRSuffix ! (w + 1) else 0);
            denominator = n - w + 1
        in (fState', lState',
            fpValues[w := (if denominator = 0 then real m
                           else real m - (fW + lW + rW) / real denominator)]))"

definition calculateFpValues ::
  "nat list \<Rightarrow> nat list \<Rightarrow> nat list \<Rightarrow> nat \<Rightarrow> nat \<Rightarrow> real list" where
  "calculateFpValues sortedFirstAccessTimesForClass sortedLastAccessTimesForClass
       reuseTimeHistogramWindowForClass n m =
     (if n = 0 then []
      else
        let maxT = n - 1;
            suffixes = suffix_sums reuseTimeHistogramWindowForClass maxT;
            currentFSum = real (sum_list sortedFirstAccessTimesForClass);
            currentLSum = real (sum_list sortedLastAccessTimesForClass);
            currentFCount = length sortedFirstAccessTimesForClass;
            currentLCount = length sortedLastAccessTimesForClass
        in snd (snd (fold (fp_step sortedFirstAccessTimesForClass sortedLastAccessTimesForClass
                             suffixes n m)
                       [1..<n + 1]
                       ((0, currentFSum, currentFCount), (0, currentLSum, currentLCount),
                        replicate (n + 1) 0))))"

subsection \<open>\<open>queryMrc\<close>\<close>

text \<open>The hit count of one cache size: the loop over the reuse times.\<close>

definition hitCount :: "nat list \<Rightarrow> real list \<Rightarrow> nat \<Rightarrow> nat" where
  "hitCount reuseTimeHistogram fpValues cacheSize =
     fold (\<lambda>reuseTime hitCount.
             if reuseTimeHistogram ! reuseTime > 0
             then
               let fpAtReuseTime = (if reuseTime > 0 \<and> reuseTime < length fpValues
                                    then fpValues ! reuseTime else 0)
               in if fpAtReuseTime < real cacheSize
                  then hitCount + reuseTimeHistogram ! reuseTime else hitCount
             else hitCount)
       [0..<length reuseTimeHistogram] 0"

text \<open>
  The miss ratio of one slab count. \<open>cacheSize\<close> is the product of two \<open>size_t\<close> values:
  it wraps around at \<open>2 ^ 64\<close>, which \<open>size_t_wrap\<close> does.
\<close>

definition size_t_wrap :: "nat \<Rightarrow> nat" where
  "size_t_wrap x = x mod 2 ^ 64"

definition missRatioAt :: "nat \<Rightarrow> nat list \<Rightarrow> real list \<Rightarrow> nat \<Rightarrow> nat \<Rightarrow> real" where
  "missRatioAt totalAccesses reuseTimeHistogram fpValues allocsPerSlab slabCount =
     (let cacheSize = size_t_wrap (slabCount * allocsPerSlab)
      in if totalAccesses > 0 \<and> cacheSize > 0
         then
           let hitRatio = real (hitCount reuseTimeHistogram fpValues cacheSize) / real totalAccesses;
               missRatio = 1 - hitRatio
           in max 0 (min 1 missRatio)
         else 1)"

text \<open>
  The loop over the slab counts \<open>0 .. maxSlabCount\<close>, with the state
  (\<open>mrcPoints\<close>, \<open>mrcDelta\<close>, \<open>prevMissRatio\<close>).
\<close>

definition mrc_curve ::
  "nat \<Rightarrow> nat list \<Rightarrow> real list \<Rightarrow> nat \<Rightarrow> nat \<Rightarrow> (nat \<times> real) list \<times> (nat \<times> real) list \<times> real" where
  "mrc_curve totalAccesses reuseTimeHistogram fpValues allocsPerSlab maxSlabCount =
     fold (\<lambda>slabCount (mrcPoints, mrcDelta, prevMissRatio).
             let missRatio = missRatioAt totalAccesses reuseTimeHistogram fpValues allocsPerSlab slabCount
             in (AList.update slabCount missRatio mrcPoints,
                 (if slabCount > 0 then AList.update slabCount (prevMissRatio - missRatio) mrcDelta
                  else mrcDelta),
                 missRatio))
       [0..<maxSlabCount + 1] ([], [], 1)"

type_synonym class_mrc = "(nat \<times> real) list \<times> (nat \<times> real) list \<times> nat"

text \<open>
  The body of the loop over the classes, once the class has passed the two \<open>continue\<close>
  checks: every statistic is read with \<open>at\<close>.
\<close>

definition class_mrc_entry :: "window_stats \<Rightarrow> ClassId \<Rightarrow> nat \<Rightarrow> nat \<Rightarrow> class_mrc option" where
  "class_mrc_entry stats classId allocsPerSlab maxSlabCount =
     (case stats of
        (firstAccessTimesByClass, lastAccessTimesByClass, reuseHistogramByClass, nByClass, mByClass) \<Rightarrow>
        do {
          firstAccessTimes \<leftarrow> map_of firstAccessTimesByClass classId;
          lastAccessTimes \<leftarrow> map_of lastAccessTimesByClass classId;
          reuseTimeHistogram \<leftarrow> map_of reuseHistogramByClass classId;
          n \<leftarrow> map_of nByClass classId;
          m \<leftarrow> map_of mByClass classId;
          let fpValues = calculateFpValues firstAccessTimes lastAccessTimes reuseTimeHistogram n m;
          let curve = mrc_curve n reuseTimeHistogram fpValues allocsPerSlab maxSlabCount;
          Some (fst curve, fst (snd curve), n)
        })"

fun queryMrc_classes ::
  "window_stats \<Rightarrow> (ClassId \<times> nat) list \<Rightarrow> nat \<Rightarrow> (ClassId \<times> class_mrc) list
     \<Rightarrow> (ClassId \<times> class_mrc) list option" where
  "queryMrc_classes stats [] maxSlabCount result = Some result"
| "queryMrc_classes stats ((classId, allocsPerSlab) # rest) maxSlabCount result =
     (if allocsPerSlab = 0 then queryMrc_classes stats rest maxSlabCount result
      else if map_of (fst stats) classId = None
        then queryMrc_classes stats rest maxSlabCount result
      else do {
        entry \<leftarrow> class_mrc_entry stats classId allocsPerSlab maxSlabCount;
        queryMrc_classes stats rest maxSlabCount (AList.update classId entry result)
      })"

definition queryMrc ::
  "FootprintMRC \<Rightarrow> (ClassId \<times> nat) list \<Rightarrow> nat \<Rightarrow> (ClassId \<times> class_mrc) list option" where
  "queryMrc st classIdToAllocsPerSlabMap maxSlabCount =
     (if currentBufferSize st = 0 then Some []
      else queryMrc_classes (calculateWindowStats st) classIdToAllocsPerSlabMap maxSlabCount [])"

subsection \<open>\<open>solveSlabReallocation\<close>\<close>

type_synonym solver_output =
  "real \<times> real \<times> (ClassId \<times> nat) list \<times> (ClassId \<times> ClassId) list \<times> (ClassId \<times> nat) list"

text \<open>The loops that read \<open>classMrcData.at(classId)\<close> for the sorted class ids.\<close>

fun accessFrequencies_loop ::
  "(ClassId \<times> class_mrc) list \<Rightarrow> ClassId list \<Rightarrow> (ClassId \<times> nat) list
     \<Rightarrow> (ClassId \<times> nat) list option" where
  "accessFrequencies_loop classMrcData [] accessFrequencies = Some accessFrequencies"
| "accessFrequencies_loop classMrcData (classId # rest) accessFrequencies =
     do {
       entry \<leftarrow> map_of classMrcData classId;
       accessFrequencies_loop classMrcData rest
         (AList.update classId (snd (snd entry)) accessFrequencies)
     }"

definition cost_row :: "class_mrc \<Rightarrow> nat \<Rightarrow> real list" where
  "cost_row entry maxTotalSlabs =
     map (\<lambda>j. let effectiveJ = min j maxTotalSlabs;
                   missRatio = getMissRatio (fst entry) effectiveJ
               in real (snd (snd entry)) * missRatio)
       [0..<maxTotalSlabs + 1]"

fun costTable_loop ::
  "(ClassId \<times> class_mrc) list \<Rightarrow> ClassId list \<Rightarrow> nat \<Rightarrow> real list list option" where
  "costTable_loop classMrcData [] maxTotalSlabs = Some []"
| "costTable_loop classMrcData (classId # rest) maxTotalSlabs =
     do {
       entry \<leftarrow> map_of classMrcData classId;
       rows \<leftarrow> costTable_loop classMrcData rest maxTotalSlabs;
       Some (cost_row entry maxTotalSlabs # rows)
     }"

text \<open>
  The dynamic program. \<open>cost_lt tempCost (F[i][j])\<close> is \<open>tempCost < F[i][j]\<close> with \<open>None\<close>
  for infinity. \<open>dp_cell\<close> is the loop over \<open>k\<close> for one cell \<open>(i, j)\<close>, started from the
  initial contents \<open>(infinity, 0)\<close> of \<open>F[i][j]\<close> and \<open>B[i][j]\<close>; it reads row \<open>i - 1\<close> of
  \<open>F\<close> only, so the loop over \<open>j\<close> fills row \<open>i\<close> cell by cell.
\<close>

definition cost_lt :: "real \<Rightarrow> real option \<Rightarrow> bool" where
  "cost_lt tempCost Fij = (case Fij of None \<Rightarrow> True | Some v \<Rightarrow> tempCost < v)"

definition dp_cell :: "real option list \<Rightarrow> real list \<Rightarrow> nat \<Rightarrow> nat \<Rightarrow> real option \<times> nat" where
  "dp_cell Fprev costRow maxSlabsForMrcProfile j =
     fold (\<lambda>k (Fij, Bij).
             case Fprev ! (j - k) of
               None \<Rightarrow> (Fij, Bij)
             | Some FprevCost \<Rightarrow>
                 let currentClassCost = costRow ! k;
                     tempCost = FprevCost + currentClassCost
                 in if cost_lt tempCost Fij then (Some tempCost, k) else (Fij, Bij))
       [0..<min j maxSlabsForMrcProfile + 1] (None, 0)"

text \<open>The body of the loop over \<open>i\<close>: row \<open>i\<close> of \<open>F\<close> and of \<open>B\<close>.\<close>

definition dp_step ::
  "real list list \<Rightarrow> nat \<Rightarrow> nat \<Rightarrow> real option list list \<times> nat list list
     \<Rightarrow> real option list list \<times> nat list list" where
  "dp_step costTable maxTotalSlabs i FB =
     (case FB of (F, B) \<Rightarrow>
        let cells = map (dp_cell (F ! (i - 1)) (costTable ! (i - 1)) maxTotalSlabs)
                      [0..<maxTotalSlabs + 1]
        in (F[i := map fst cells], B[i := map snd cells]))"

definition dp_tables :: "real list list \<Rightarrow> nat \<Rightarrow> real option list list \<times> nat list list" where
  "dp_tables costTable maxTotalSlabs =
     fold (dp_step costTable maxTotalSlabs) [1..<length costTable + 1]
       ((Some 0 # replicate maxTotalSlabs None)
          # replicate (length costTable) (replicate (maxTotalSlabs + 1) None),
        replicate (length costTable + 1) (replicate (maxTotalSlabs + 1) 0))"

text \<open>The walk back through \<open>B\<close>, for \<open>i\<close> from \<open>numClasses\<close> down to \<open>1\<close>.\<close>

definition reconstruct_step ::
  "nat list list \<Rightarrow> ClassId list \<Rightarrow> nat \<Rightarrow> (ClassId \<times> nat) list \<times> nat
     \<Rightarrow> (ClassId \<times> nat) list \<times> nat" where
  "reconstruct_step B classIds i acc =
     (case acc of (optimalAllocation, remainingSlabs) \<Rightarrow>
        let classId = classIds ! (i - 1);
            slabsForThisClass = B ! i ! remainingSlabs
        in (AList.update classId slabsForThisClass optimalAllocation,
            remainingSlabs - slabsForThisClass))"

definition reconstruct :: "nat list list \<Rightarrow> ClassId list \<Rightarrow> nat \<Rightarrow> (ClassId \<times> nat) list" where
  "reconstruct B classIds maxTotalSlabs =
     fst (fold (reconstruct_step B classIds) (rev [1..<length classIds + 1]) ([], maxTotalSlabs))"

text \<open>\<open>allRelevantClassIds\<close> is a \<open>std::set\<close>: a sorted list without duplicates.\<close>

definition allRelevantClassIds_of :: "ClassId list \<Rightarrow> (ClassId \<times> nat) list \<Rightarrow> ClassId list" where
  "allRelevantClassIds_of classIds currentSlabAllocation =
     fold insort_insert (map fst currentSlabAllocation) (fold insort_insert classIds [])"

definition fill_missing :: "ClassId list \<Rightarrow> (ClassId \<times> nat) list \<Rightarrow> (ClassId \<times> nat) list" where
  "fill_missing allRelevantClassIds optimalAllocation =
     fold (\<lambda>classId optimalAllocation.
             if map_of optimalAllocation classId = None
             then AList.update classId 0 optimalAllocation else optimalAllocation)
       allRelevantClassIds optimalAllocation"

definition total_misses :: "(ClassId \<times> class_mrc) list \<Rightarrow> (ClassId \<times> nat) list \<Rightarrow> real" where
  "total_misses classMrcData allocation =
     fold (\<lambda>(classId, slabs) totalMisses.
             case map_of classMrcData classId of
               Some entry \<Rightarrow>
                 let missRatio = getMissRatio (fst entry) slabs
                 in totalMisses + real (snd (snd entry)) * missRatio
             | None \<Rightarrow> totalMisses + 0)
       allocation 0"

fun move_queues ::
  "(ClassId \<times> nat) list \<Rightarrow> (ClassId \<times> nat) list \<Rightarrow> ClassId list \<Rightarrow> ClassId list \<times> ClassId list
     \<Rightarrow> (ClassId list \<times> ClassId list) option" where
  "move_queues optimalAllocation currentSlabAllocation [] queues = Some queues"
| "move_queues optimalAllocation currentSlabAllocation (classId # rest) queues =
     do {
       let currentSlabs = (case map_of currentSlabAllocation classId of Some v \<Rightarrow> v | None \<Rightarrow> 0);
       optimalSlabs \<leftarrow> map_of optimalAllocation classId;
       move_queues optimalAllocation currentSlabAllocation rest
         (if optimalSlabs < currentSlabs
          then (fst queues @ replicate (currentSlabs - optimalSlabs) classId, snd queues)
          else if optimalSlabs > currentSlabs
          then (fst queues, snd queues @ replicate (optimalSlabs - currentSlabs) classId)
          else queues)
     }"

text \<open>The largest finite \<open>double\<close>, \<open>std::numeric_limits<double>::max()\<close>.\<close>

definition DBL_MAX :: real where
  "DBL_MAX = (2 - 1 / 2 ^ 52) * 2 ^ 1023"

text \<open>The score the comparator of the victim sort computes for one class id.\<close>

definition score :: "(ClassId \<times> nat) list \<Rightarrow> (ClassId \<times> nat) list \<Rightarrow> ClassId \<Rightarrow> real" where
  "score accessFrequencies currentSlabAllocation a =
     (case map_of accessFrequencies a of
        None \<Rightarrow> DBL_MAX
      | Some freq \<Rightarrow>
          (case map_of currentSlabAllocation a of
             None \<Rightarrow> DBL_MAX
           | Some currentSlabsA \<Rightarrow>
               if currentSlabsA > 0 then real freq / real currentSlabsA else DBL_MAX))"

text \<open>
  Everything after the two early returns. \<open>std::sort\<close> is not a stable sort: it returns
  the victims in an order that is ascending for the comparator, and which of the victims
  of equal score comes first is up to the library. The sorting routine is therefore the
  parameter \<open>std_sort\<close> of the embedding; it is called with the score the comparator
  compares by (\<open>scoreA < scoreB\<close>) and the victim queue. What the theorems assume of it
  is \<open>std_sort_spec\<close>, below; the library function \<open>sort_key\<close> is one such routine.
\<close>

type_synonym sort_routine = "(ClassId \<Rightarrow> real) \<Rightarrow> ClassId list \<Rightarrow> ClassId list"

definition solve_classes ::
  "sort_routine \<Rightarrow> (ClassId \<times> class_mrc) list \<Rightarrow> (ClassId \<times> nat) list \<Rightarrow> nat
     \<Rightarrow> solver_output option" where
  "solve_classes std_sort classMrcData currentSlabAllocation maxTotalSlabs =
     do {
       let classIds = sort (map fst classMrcData);
       accessFrequencies \<leftarrow> accessFrequencies_loop classMrcData classIds [];
       costTable \<leftarrow> costTable_loop classMrcData classIds maxTotalSlabs;
       let B = snd (dp_tables costTable maxTotalSlabs);
       let allRelevantClassIds = allRelevantClassIds_of classIds currentSlabAllocation;
       let optimalAllocation =
             fill_missing allRelevantClassIds (reconstruct B classIds maxTotalSlabs);
       let totalMissesOld = total_misses classMrcData currentSlabAllocation;
       let totalMissesNew = total_misses classMrcData optimalAllocation;
       let totalRequestsInWindow = sum_list (map snd accessFrequencies);
       let mrOld = (if totalRequestsInWindow > 0
                    then totalMissesOld / real totalRequestsInWindow else 0);
       let mrNew = (if totalRequestsInWindow > 0
                    then totalMissesNew / real totalRequestsInWindow else 0);
       queues \<leftarrow> move_queues optimalAllocation currentSlabAllocation allRelevantClassIds ([], []);
       let victimSlabsToMove = std_sort (score accessFrequencies currentSlabAllocation) (fst queues);
       let receiverSlabsToMove = snd queues;
       let reassignmentPlan =
             map (\<lambda>i. (victimSlabsToMove ! i, receiverSlabsToMove ! i))
               [0..<min (length victimSlabsToMove) (length receiverSlabsToMove)];
       Some (mrOld, mrNew, optimalAllocation, reassignmentPlan, accessFrequencies)
     }"

definition solveSlabReallocation ::
  "sort_routine \<Rightarrow> FootprintMRC \<Rightarrow> (ClassId \<times> nat) list \<Rightarrow> (ClassId \<times> nat) list
     \<Rightarrow> solver_output option" where
  "solveSlabReallocation std_sort st classIdToAllocsPerSlabMap currentSlabAllocation =
     do {
       let maxTotalSlabs = sum_list (map snd currentSlabAllocation);
       let maxSlabsForMrcProfile = maxTotalSlabs;
       classMrcData \<leftarrow> queryMrc st classIdToAllocsPerSlabMap maxSlabsForMrcProfile;
       if classMrcData = [] then Some (0, 0, [], [], [])
       else if maxTotalSlabs = 0 \<and> classIdToAllocsPerSlabMap = [] then Some (0, 0, [], [], [])
       else solve_classes std_sort classMrcData currentSlabAllocation maxTotalSlabs
     }"

subsection \<open>Auxiliary notions\<close>

text \<open>
  The shape of the entry of class \<open>c\<close> in the result of \<open>queryMrc\<close>: its points are the
  miss ratios of the slab counts \<open>0 .. B\<close>, in this order, computed with a non-zero
  \<open>allocsPerSlab\<close> that the map holds for \<open>c\<close>.
\<close>

definition curve_entry :: "(ClassId \<times> nat) list \<Rightarrow> nat \<Rightarrow> ClassId \<Rightarrow> class_mrc \<Rightarrow> bool" where
  "curve_entry aps B c e \<longleftrightarrow>
     (\<exists>h fp a. a \<noteq> 0 \<and> (c, a) \<in> set aps
        \<and> fst e = map (\<lambda>s. (s, missRatioAt (snd (snd e)) h fp a s)) [0..<B + 1])"

text \<open>
  The access-per-slab pressure of a class as the specification words it:
  \<open>n / current\<close>, and infinite (\<open>None\<close>) for a class that has no access count, no
  current allocation, or a current allocation of \<open>0\<close>. \<open>pressure_le\<close> and
  \<open>pressure_less\<close> compare two pressures, \<open>None\<close> being the largest.
\<close>

definition pressure :: "(ClassId \<times> nat) list \<Rightarrow> (ClassId \<times> nat) list \<Rightarrow> ClassId \<Rightarrow> real option" where
  "pressure accessFrequencies currentSlabAllocation c =
     (case map_of accessFrequencies c of
        None \<Rightarrow> None
      | Some n \<Rightarrow>
          (case map_of currentSlabAllocation c of
             None \<Rightarrow> None
           | Some current \<Rightarrow> if current = 0 then None else Some (real n / real current)))"

definition pressure_le :: "real option \<Rightarrow> real option \<Rightarrow> bool" where
  "pressure_le p q =
     (case q of None \<Rightarrow> True | Some b \<Rightarrow> (case p of None \<Rightarrow> False | Some a \<Rightarrow> a \<le> b))"

definition pressure_less :: "real option \<Rightarrow> real option \<Rightarrow> bool" where
  "pressure_less p q =
     (case p of None \<Rightarrow> False | Some a \<Rightarrow> (case q of None \<Rightarrow> True | Some b \<Rightarrow> a < b))"

text \<open>
  What the C++ standard promises of \<open>std::sort\<close>: the result is a permutation of the
  input (every element occurs as often as before) and is ascending for the comparator,
  here the order of the scores.
\<close>

definition std_sort_spec :: "sort_routine \<Rightarrow> bool" where
  "std_sort_spec std_sort \<longleftrightarrow>
     (\<forall>f xs. (\<forall>x. count_list (std_sort f xs) x = count_list xs x)
              \<and> sorted (map f (std_sort f xs)))"

text \<open>
  The receiver queue as the plan enumerates it: the sorted class ids of the optimal
  allocation (the union of the class ids), each repeated once per slab it gains.
\<close>

definition receiver_queue :: "(ClassId \<times> nat) list \<Rightarrow> (ClassId \<times> nat) list \<Rightarrow> ClassId list" where
  "receiver_queue optimalAllocation currentSlabAllocation =
     concat (map (\<lambda>c. replicate (subscript 0 optimalAllocation c
                                    - subscript 0 currentSlabAllocation c) c)
               (sorted_list_of_set (fst ` set optimalAllocation)))"

definition victim_queue :: "(ClassId \<times> nat) list \<Rightarrow> (ClassId \<times> nat) list \<Rightarrow> ClassId list" where
  "victim_queue optimalAllocation currentSlabAllocation =
     concat (map (\<lambda>c. replicate (subscript 0 currentSlabAllocation c
                                    - subscript 0 optimalAllocation c) c)
               (sorted_list_of_set (fst ` set optimalAllocation)))"




text \<open>
  Notions for the dynamic program. \<open>relax\<close> is the body of the loop over \<open>k\<close> of one
  cell. \<open>dp_ok\<close> says that the tables are filled as the loops fill them: row \<open>0\<close> of \<open>F\<close>
  is \<open>0, infinity, ...\<close>, and the cell \<open>(r, j)\<close> of \<open>F\<close> and \<open>B\<close> is the result of the loop
  over \<open>k\<close> on row \<open>r - 1\<close>. \<open>class_misses\<close> is the summand of the two loops that add up
  the misses of an allocation.
\<close>

definition relax ::
  "real option list \<Rightarrow> real list \<Rightarrow> nat \<Rightarrow> nat \<Rightarrow> real option \<times> nat \<Rightarrow> real option \<times> nat" where
  "relax Fprev costRow j k acc =
     (case acc of (Fij, Bij) \<Rightarrow>
        case Fprev ! (j - k) of
          None \<Rightarrow> (Fij, Bij)
        | Some FprevCost \<Rightarrow>
            if cost_lt (FprevCost + costRow ! k) Fij then (Some (FprevCost + costRow ! k), k)
            else (Fij, Bij))"

definition dp_ok :: "real list list \<Rightarrow> nat \<Rightarrow> real option list list \<Rightarrow> nat list list \<Rightarrow> bool" where
  "dp_ok ct M F B \<longleftrightarrow>
     F ! 0 = Some 0 # replicate M None
     \<and> (\<forall>r j. 1 \<le> r \<and> r \<le> length ct \<and> j \<le> M \<longrightarrow>
           dp_cell (F ! (r - 1)) (ct ! (r - 1)) M j = (F ! r ! j, B ! r ! j))"

definition class_misses :: "(ClassId \<times> class_mrc) list \<Rightarrow> ClassId \<times> nat \<Rightarrow> real" where
  "class_misses classMrcData p =
     (case map_of classMrcData (fst p) of
        Some entry \<Rightarrow> real (snd (snd entry)) * getMissRatio (fst entry) (snd p)
      | None \<Rightarrow> 0)"

text \<open>A small window used in the examples: three accesses in a ring of four slots.\<close>

definition example_window :: FootprintMRC where
  "example_window =
     \<lparr>circularBuffer = [(7, 1), (8, 2), (7, 1), (0, 0)], circularBufferMaxLen = 4,
      currentBufferSize = 3, bufferHeadIndex = 3\<rparr>"

text \<open>
  A full ring of eight accesses: class 1 sees three keys once each, class 2 one key once,
  class 3 one key four times.
\<close>

definition example_ring :: FootprintMRC where
  "example_ring =
     \<lparr>circularBuffer = [(10, 1), (11, 1), (12, 1), (20, 2), (30, 3), (30, 3), (30, 3), (30, 3)],
      circularBufferMaxLen = 8, currentBufferSize = 8, bufferHeadIndex = 0\<rparr>"

text \<open>
  A full ring of eight accesses: class 1 alternates between two keys, class 2 sees one key
  twice, class 3 two keys once each.
\<close>

definition example_mixed :: FootprintMRC where
  "example_mixed =
     \<lparr>circularBuffer = [(10, 1), (11, 1), (10, 1), (11, 1), (20, 2), (20, 2), (30, 3), (31, 3)],
      circularBufferMaxLen = 8, currentBufferSize = 8, bufferHeadIndex = 0\<rparr>"

text \<open>A ring of two slots that has seen the same key of class 1 twice.\<close>

definition example_pair :: FootprintMRC where
  "example_pair =
     \<lparr>circularBuffer = [(1, 1), (1, 1)], circularBufferMaxLen = 2,
      currentBufferSize = 2, bufferHeadIndex = 0\<rparr>"

text \<open>A ring of four slots that has seen a single access, to class 1.\<close>

definition example_single :: FootprintMRC where
  "example_single =
     \<lparr>circularBuffer = [(5, 1), (0, 0), (0, 0), (0, 0)],
      circularBufferMaxLen = 4, currentBufferSize = 1, bufferHeadIndex = 1\<rparr>"

section \<open>Evaluation\<close>

text \<open>
  The wrap-around is evaluated on integers in binary representation.
\<close>

lemma size_t_wrap_code [code]: "size_t_wrap x = nat (int x mod 18446744073709551616)"
  unfolding size_t_wrap_def by (simp add: nat_mod_as_int)

lemma size_t_wrap_small: "x < 2 ^ 64 \<Longrightarrow> size_t_wrap x = x"
  by (simp add: size_t_wrap_def)

section \<open>The ring buffer\<close>

lemma feeds_snoc:
  "feeds toKeyInt (accesses @ [(key, classId)]) st = feed toKeyInt key classId (feeds toKeyInt accesses st)"
  by (simp add: feeds_def)

lemma feeds_ring_state:
  assumes "1 \<le> K" and "new_FootprintMRC K = Inr st0"
  shows "length (circularBuffer (feeds toKeyInt accesses st0)) = K
       \<and> circularBufferMaxLen (feeds toKeyInt accesses st0) = K
       \<and> bufferHeadIndex (feeds toKeyInt accesses st0) = length accesses mod K
       \<and> currentBufferSize (feeds toKeyInt accesses st0) = min (length accesses) K"
proof (induction accesses rule: rev_induct)
  case Nil
  from assms show ?case
    by (auto simp: new_FootprintMRC_def feeds_def split: if_splits)
next
  case (snoc a accesses)
  obtain key classId where a: "a = (key, classId)" by (cases a)
  let ?st = "feeds toKeyInt accesses st0"
  from snoc have len: "length (circularBuffer ?st) = K" and ml: "circularBufferMaxLen ?st = K"
    and hd: "bufferHeadIndex ?st = length accesses mod K"
    and sz: "currentBufferSize ?st = min (length accesses) K"
    by simp_all
  from assms(1) len have ne: "circularBuffer ?st \<noteq> []" by auto
  from assms(1) have lt: "\<not> K \<le> length accesses mod K"
    by (simp add: not_le)
  have "bufferHeadIndex (feed toKeyInt key classId ?st) = Suc (length accesses) mod K"
    using ne ml lt assms(1) hd by (simp add: feed_def Let_def mod_Suc_eq)
  moreover have "currentBufferSize (feed toKeyInt key classId ?st) = min (Suc (length accesses)) K"
    using ne ml assms(1) sz by (simp add: feed_def Let_def min_def)
  moreover have "length (circularBuffer (feed toKeyInt key classId ?st)) = K"
    using len by (simp add: feed_def Let_def)
  moreover have "circularBufferMaxLen (feed toKeyInt key classId ?st) = K"
    using ml by (simp add: feed_def Let_def)
  ultimately show ?case
    by (simp add: a feeds_snoc)
qed

text \<open>
  Claim C9. The constructor creates a profiler whose ring has capacity \<open>k\<close> (an empty
  window with \<open>k\<close> physical slots) when \<open>k \<ge> 1\<close>, and it fails with \<open>InvalidArgument\<close>,
  creating nothing, exactly when \<open>k < 1\<close>.
\<close>

theorem constructor_capacity:
  "(1 \<le> k \<longrightarrow> (\<exists>st. new_FootprintMRC k = Inr st \<and> length (circularBuffer st) = k
                      \<and> circularBufferMaxLen st = k \<and> currentBufferSize st = 0
                      \<and> bufferHeadIndex st = 0))
   \<and> (new_FootprintMRC k = Inl InvalidArgument \<longleftrightarrow> k < 1)"
  by (simp add: new_FootprintMRC_def)

theorem constructor_capacity_witness:
  "(\<exists>st. new_FootprintMRC 3 = Inr st \<and> length (circularBuffer st) = 3
          \<and> circularBufferMaxLen st = 3 \<and> currentBufferSize st = 0 \<and> bufferHeadIndex st = 0)
   \<and> new_FootprintMRC 0 = Inl InvalidArgument"
  using constructor_capacity [of 3] constructor_capacity [of 0] by simp

text \<open>
  Claim C6. After constructing a profiler with capacity \<open>K \<ge> 1\<close> and feeding it \<open>t\<close>
  accesses (no reset), the buffer still has exactly \<open>K\<close> slots, the head is \<open>t mod K\<close>
  and the size is \<open>min t K\<close>. \<open>feed\<close> is a total function on states (it has no failing
  branch), and one more \<open>feed\<close> writes its record into the slot the head pointed to
  and advances the head by one modulo \<open>K\<close>.
\<close>

theorem feed_ring_invariant:
  assumes "1 \<le> K"
  shows "\<exists>st0. new_FootprintMRC K = Inr st0 \<and>
     (let st = feeds toKeyInt accesses st0 in
        length (circularBuffer st) = K
      \<and> circularBufferMaxLen st = K
      \<and> bufferHeadIndex st = length accesses mod K
      \<and> currentBufferSize st = min (length accesses) K
      \<and> circularBuffer (feed toKeyInt key classId st)
          = (circularBuffer st)[bufferHeadIndex st := (toKeyInt key, classId)]
      \<and> bufferHeadIndex (feed toKeyInt key classId st) = (bufferHeadIndex st + 1) mod K)"
proof -
  from assms obtain st0 where st0: "new_FootprintMRC K = Inr st0"
    by (auto simp: new_FootprintMRC_def)
  let ?st = "feeds toKeyInt accesses st0"
  note inv = feeds_ring_state [OF assms st0, of toKeyInt accesses]
  from inv assms have ne: "circularBuffer ?st \<noteq> []" by auto
  from inv assms have lt: "bufferHeadIndex ?st < circularBufferMaxLen ?st" by simp
  have w: "circularBuffer (feed toKeyInt key classId ?st)
          = (circularBuffer ?st)[bufferHeadIndex ?st := (toKeyInt key, classId)]"
    using ne lt by (simp add: feed_def Let_def)
  have h: "bufferHeadIndex (feed toKeyInt key classId ?st) = (bufferHeadIndex ?st + 1) mod K"
    using ne lt inv by (simp add: feed_def Let_def)
  show ?thesis
    using st0 inv w h by (simp add: Let_def)
qed

theorem feed_ring_invariant_witness:
  "\<exists>st0. new_FootprintMRC 2 = Inr st0 \<and>
     (let st = feeds id [(7, 1), (8, 1), (9, 2)] st0 in
        length (circularBuffer st) = 2
      \<and> circularBufferMaxLen st = 2
      \<and> bufferHeadIndex st = 1
      \<and> currentBufferSize st = 2
      \<and> circularBuffer (feed id 5 3 st) = [(9, 2), (5, 3)]
      \<and> bufferHeadIndex (feed id 5 3 st) = 0)"
proof -
  have K: "(1::nat) \<le> 2" by simp
  have e: "feeds id [(7, 1), (8, 1), (9, 2)]
             \<lparr>circularBuffer = replicate 2 (0, 0), circularBufferMaxLen = 2,
              currentBufferSize = 0, bufferHeadIndex = 0\<rparr>
           = \<lparr>circularBuffer = [(9, 2), (8, 1)], circularBufferMaxLen = 2,
              currentBufferSize = 2, bufferHeadIndex = 1\<rparr>"
    by (simp add: feeds_def feed_def Let_def numeral_2_eq_2)
  show ?thesis
    using feed_ring_invariant [OF K, of id "[(7, 1), (8, 1), (9, 2)]" 5 3]
    by (auto simp: new_FootprintMRC_def e Let_def)
qed

section \<open>The miss-ratio lookup\<close>

text \<open>
  Claim C5. The lookup used by the solver, read as the ordered case analysis it is:
  \<open>1\<close> at slab count \<open>0\<close>; the stored value at a (non-zero) key of the map; the value
  stored at the largest profiled slab count when the slab count exceeds it; and \<open>1\<close>
  for a slab count strictly between \<open>0\<close> and the largest profiled slab count that is
  not a key.
\<close>

theorem getMissRatio_cases:
  "getMissRatio m 0 = 1
   \<and> (s \<noteq> 0 \<and> map_of m s = Some v \<longrightarrow> getMissRatio m s = v)
   \<and> (m \<noteq> [] \<and> s > Max (set (map fst m)) \<longrightarrow>
        map_of m (Max (set (map fst m))) = Some (getMissRatio m s))
   \<and> (0 < s \<and> m \<noteq> [] \<and> s < Max (set (map fst m)) \<and> map_of m s = None \<longrightarrow>
        getMissRatio m s = 1)"
proof -
  have c3: "map_of m (Max (set (map fst m))) = Some (getMissRatio m s)"
    if ne: "m \<noteq> []" and gt: "s > Max (set (map fst m))"
  proof -
    let ?M = "Max (set (map fst m))"
    from ne have "?M \<in> set (map fst m)"
      by (intro Max_in) auto
    then obtain v where v: "map_of m ?M = Some v"
      by (metis domD dom_map_of_conv_image_fst set_map)
    have "s \<notin> set (map fst m)"
    proof
      assume "s \<in> set (map fst m)"
      then have "s \<le> ?M" by (intro Max_ge) auto
      with gt show False by simp
    qed
    then have none: "map_of m s = None"
      by (simp add: map_of_eq_None_iff)
    from gt have "s \<noteq> 0" by simp
    with none ne gt v show ?thesis
      by (simp add: getMissRatio_def)
  qed
  show ?thesis
    using c3 by (auto simp: getMissRatio_def)
qed

theorem getMissRatio_cases_witness:
  "getMissRatio [(0, 1), (1, 1 / 2), (3, 1 / 4)] 0 = 1
   \<and> getMissRatio [(0, 1), (1, 1 / 2), (3, 1 / 4)] 1 = 1 / 2
   \<and> getMissRatio [(0, 1), (1, 1 / 2), (3, 1 / 4)] 5 = 1 / 4
   \<and> getMissRatio [(0, 1), (1, 1 / 2), (3, 1 / 4)] 2 = 1"
proof -
  let ?m = "[(0, 1), (1, 1 / 2), (3, 1 / 4)] :: (nat \<times> real) list"
  have M: "Max (set (map fst ?m)) = 3" by simp
  show ?thesis
    using getMissRatio_cases [of ?m 1 "1 / 2"] getMissRatio_cases [of ?m 5]
      getMissRatio_cases [of ?m 2]
    by (simp add: M)
qed


section \<open>Window statistics and miss ratio curves\<close>


lemma update_fresh:
  "k \<notin> fst ` set al \<Longrightarrow> AList.update k v al = al @ [(k, v)]"
  by (induction al) auto

lemma map_of_keyed:
  "map_of (map (\<lambda>k. (k, f k)) ks) k = (if k \<in> set ks then Some (f k) else None)"
  by (induction ks) auto

subsection \<open>The key sets of the window statistics\<close>

lemma pass1_keys:
  "fst ` set (fst (fold pass1_step es acc)) = fst ` set (fst acc) \<union> snd ` set es
   \<and> fst ` set (snd (fold pass1_step es acc)) = fst ` set (snd acc) \<union> snd ` set es"
proof (induction es arbitrary: acc)
  case Nil
  show ?case by simp
next
  case (Cons e es)
  obtain k c where e: "e = (k, c)" by (cases e)
  obtain nb uq where acc: "acc = (nb, uq)" by (cases acc)
  show ?case
    using Cons [of "pass1_step e acc"]
    by (auto simp: e acc pass1_step_def dom_update)
qed

lemma pass2_keys:
  "fst ` set (reuseTimeHistogramByClass (fold pass2_step es s))
     = fst ` set (reuseTimeHistogramByClass s) \<union> snd ` set es"
proof (induction es arbitrary: s)
  case Nil
  show ?case by simp
next
  case (Cons e es)
  obtain k c where e: "e = (k, c)" by (cases e)
  have "fst ` set (reuseTimeHistogramByClass (pass2_step e s))
          = insert c (fst ` set (reuseTimeHistogramByClass s))"
    by (simp add: e pass2_step_def Let_def dom_update)
  with Cons [of "pass2_step e s"] show ?case
    by (auto simp: e)
qed

lemma map_fst_keyed:
  "map fst (map (\<lambda>(c, y). (c, g c y)) xs) = map fst xs"
  by (induction xs) auto

lemma window_stats_of_proj:
  "fst (snd (snd (snd (window_stats_of es)))) = fst (fold pass1_step es ([], []))"
  "map fst (fst (window_stats_of es)) = map fst (fst (fold pass1_step es ([], [])))"
  "map fst (fst (snd (window_stats_of es))) = map fst (fst (fold pass1_step es ([], [])))"
  "fst (snd (snd (window_stats_of es))) =
     reuseTimeHistogramByClass (fold pass2_step es
       \<lparr>currentAccessIndex = [], keyToFirstAccess = [], keyToLastAccess = [],
        reuseTimeHistogramByClass =
          map (\<lambda>(classId, n). (classId, replicate n 0)) (fst (fold pass1_step es ([], [])))\<rparr>)"
  "map fst (snd (snd (snd (snd (window_stats_of es))))) = map fst (snd (fold pass1_step es ([], [])))"
  by (auto simp: window_stats_of_def Let_def split: prod.splits)

lemma window_stats_of_keys:
  assumes "window_stats_of es = (fb, lb, rb, nb, mb)"
  shows "fst ` set fb = snd ` set es" "fst ` set lb = snd ` set es"
    "fst ` set rb = snd ` set es" "fst ` set nb = snd ` set es" "fst ` set mb = snd ` set es"
proof -
  let ?p1 = "fold pass1_step es ([], [])"
  have n: "fst ` set (fst ?p1) = snd ` set es"
    and u: "fst ` set (snd ?p1) = snd ` set es"
    using pass1_keys [of es "([], [])"] by simp_all
  from window_stats_of_proj(1) [of es] assms have nb: "nb = fst ?p1" by simp
  from window_stats_of_proj(2) [of es] assms have "set (map fst fb) = set (map fst (fst ?p1))"
    by simp
  with n show "fst ` set fb = snd ` set es" by simp
  from window_stats_of_proj(3) [of es] assms have "set (map fst lb) = set (map fst (fst ?p1))"
    by simp
  with n show "fst ` set lb = snd ` set es" by simp
  from window_stats_of_proj(5) [of es] assms have "set (map fst mb) = set (map fst (snd ?p1))"
    by simp
  with u show "fst ` set mb = snd ` set es" by simp
  from nb n show "fst ` set nb = snd ` set es" by simp
  let ?h = "map (\<lambda>(classId, n). (classId, replicate n (0::nat))) (fst ?p1)"
  have "fst ` set ?h = set (map fst ?h)" by (simp only: set_map)
  also have "\<dots> = set (map fst (fst ?p1))" by (simp only: map_fst_keyed)
  also have "\<dots> = snd ` set es" using n by (simp only: set_map)
  finally have k: "fst ` set ?h = snd ` set es" .
  from window_stats_of_proj(4) [of es] assms
  have "rb = reuseTimeHistogramByClass (fold pass2_step es
       \<lparr>currentAccessIndex = [], keyToFirstAccess = [], keyToLastAccess = [],
        reuseTimeHistogramByClass =
          map (\<lambda>(classId, n). (classId, replicate n 0)) (fst ?p1)\<rparr>)"
    by simp
  then have "fst ` set rb = fst ` set ?h \<union> snd ` set es"
    by (simp only: pass2_keys window_scan.simps)
  with k show "fst ` set rb = snd ` set es" by simp
qed

lemma calculateWindowStats_keys:
  assumes "calculateWindowStats st = (fb, lb, rb, nb, mb)"
  shows "fst ` set fb = snd ` set (snapshot_entries st)
       \<and> fst ` set lb = snd ` set (snapshot_entries st)
       \<and> fst ` set rb = snd ` set (snapshot_entries st)
       \<and> fst ` set nb = snd ` set (snapshot_entries st)
       \<and> fst ` set mb = snd ` set (snapshot_entries st)"
proof (cases "currentBufferSize st = 0 \<or> circularBuffer st = []")
  case True
  then have "snapshot_entries st = []"
    by (auto simp: snapshot_entries_def Let_def)
  with True assms show ?thesis
    by (auto simp: calculateWindowStats_def)
next
  case False
  with assms have "window_stats_of (snapshot_entries st) = (fb, lb, rb, nb, mb)"
    by (simp add: calculateWindowStats_def)
  from window_stats_of_keys [OF this] show ?thesis by simp
qed


subsection \<open>The miss ratio curve of one class\<close>

lemma hitCount_step_mono:
  assumes "C \<le> C'"
  shows "a \<le> a' \<Longrightarrow>
    fold (\<lambda>reuseTime hitCount.
             if h ! reuseTime > 0
             then
               let fpAtReuseTime = (if reuseTime > 0 \<and> reuseTime < length fp
                                    then fp ! reuseTime else 0)
               in if fpAtReuseTime < real C
                  then hitCount + h ! reuseTime else hitCount
             else hitCount) ts (a::nat)
    \<le> fold (\<lambda>reuseTime hitCount.
             if h ! reuseTime > 0
             then
               let fpAtReuseTime = (if reuseTime > 0 \<and> reuseTime < length fp
                                    then fp ! reuseTime else 0)
               in if fpAtReuseTime < real C'
                  then hitCount + h ! reuseTime else hitCount
             else hitCount) ts a'"
proof (induction ts arbitrary: a a')
  case Nil
  then show ?case by simp
next
  case (Cons t ts)
  show ?case
    unfolding fold_Cons comp_def
    by (rule Cons.IH) (use Cons.prems assms in \<open>auto simp: Let_def\<close>)
qed

lemma hitCount_mono: "C \<le> C' \<Longrightarrow> hitCount h fp C \<le> hitCount h fp C'"
  unfolding hitCount_def by (rule hitCount_step_mono) simp_all

lemma missRatioAt_zero: "missRatioAt n h fp a 0 = 1"
  by (simp add: missRatioAt_def size_t_wrap_def)

lemma missRatioAt_bounds: "0 \<le> missRatioAt n h fp a s \<and> missRatioAt n h fp a s \<le> 1"
  by (simp add: missRatioAt_def Let_def)

lemma clamp_antimono:
  "x \<le> y \<Longrightarrow> max 0 (min 1 (1 - y)) \<le> max 0 (min 1 (1 - (x::real)))"
  by (simp add: min_def max_def)

lemma missRatioAt_antimono:
  assumes "a \<noteq> 0" and "s \<le> t" and small: "t * a < 2 ^ 64"
  shows "missRatioAt n h fp a t \<le> missRatioAt n h fp a s"
proof -
  from assms(2) have st: "s * a \<le> t * a" by simp
  from st small have "s * a < 2 ^ 64" by (rule le_less_trans)
  then have ms: "size_t_wrap (s * a) = s * a" by (rule size_t_wrap_small)
  from small have mt: "size_t_wrap (t * a) = t * a" by (rule size_t_wrap_small)
  show ?thesis
  proof (cases "n > 0 \<and> s * a > 0")
    case False
    then have "missRatioAt n h fp a s = 1"
      by (auto simp: missRatioAt_def ms)
    with missRatioAt_bounds [of n h fp a t] show ?thesis by simp
  next
    case True
    with assms(1,2) have t: "t * a > 0" by auto
    from hitCount_mono [OF st] have "real (hitCount h fp (s * a)) \<le> real (hitCount h fp (t * a))"
      by simp
    with True have "real (hitCount h fp (s * a)) / real n \<le> real (hitCount h fp (t * a)) / real n"
      by (simp add: divide_right_mono)
    from clamp_antimono [OF this] True t show ?thesis
      by (simp add: missRatioAt_def Let_def ms mt)
  qed
qed

lemma mrc_curve_fold:
  "distinct ss \<Longrightarrow> set ss \<inter> fst ` set pts = {} \<Longrightarrow>
   fst (fold (\<lambda>slabCount (mrcPoints, mrcDelta, prevMissRatio).
             let missRatio = missRatioAt n h fp a slabCount
             in (AList.update slabCount missRatio mrcPoints,
                 (if slabCount > 0 then AList.update slabCount (prevMissRatio - missRatio) mrcDelta
                  else mrcDelta),
                 missRatio)) ss (pts, dl, prev))
   = pts @ map (\<lambda>s. (s, missRatioAt n h fp a s)) ss"
proof (induction ss arbitrary: pts dl prev)
  case Nil
  show ?case by simp
next
  case (Cons s ss)
  from Cons.prems have fresh: "s \<notin> fst ` set pts" by auto
  have d: "distinct ss" and i: "set ss \<inter> fst ` set (pts @ [(s, missRatioAt n h fp a s)]) = {}"
    using Cons.prems by auto
  show ?case
    using Cons.IH [OF d i] by (simp add: Let_def update_fresh [OF fresh])
qed

lemma mrc_curve_points:
  "fst (mrc_curve n h fp a B) = map (\<lambda>s. (s, missRatioAt n h fp a s)) [0..<B + 1]"
  unfolding mrc_curve_def
  using mrc_curve_fold [of "[0..<B + 1]" "[]" n h fp a "[]" 1] by simp

lemma class_mrc_entry_curve:
  assumes "a \<noteq> 0" and "(c, a) \<in> set aps" and "class_mrc_entry stats c a B = Some e"
  shows "curve_entry aps B c e"
proof -
  obtain fb lb rb nb mb where stats: "stats = (fb, lb, rb, nb, mb)"
    by (cases stats) auto
  from assms(3) obtain f l r n m where
    "e = (fst (mrc_curve n r (calculateFpValues f l r n m) a B),
          fst (snd (mrc_curve n r (calculateFpValues f l r n m) a B)), n)"
    by (auto simp: class_mrc_entry_def stats Let_def split: Option.bind_splits)
  then show ?thesis
    using assms(1,2) unfolding curve_entry_def by (auto simp: mrc_curve_points)
qed

lemma class_mrc_entry_total:
  assumes "calculateWindowStats st = stats" and "c \<in> snd ` set (snapshot_entries st)"
  shows "\<exists>e. class_mrc_entry stats c a B = Some e"
proof -
  obtain fb lb rb nb mb where stats: "stats = (fb, lb, rb, nb, mb)"
    by (cases stats) auto
  note k = calculateWindowStats_keys [OF assms(1) [unfolded stats]]
  from k assms(2) have "c \<in> fst ` set fb" "c \<in> fst ` set lb" "c \<in> fst ` set rb"
    "c \<in> fst ` set nb" "c \<in> fst ` set mb" by simp_all
  then obtain f l r n m where "map_of fb c = Some f" "map_of lb c = Some l"
    "map_of rb c = Some r" "map_of nb c = Some n" "map_of mb c = Some m"
    by (meson domD dom_map_of_conv_image_fst domI weak_map_of_SomeI map_of_eq_None_iff not_None_eq)
  then show ?thesis
    by (simp add: class_mrc_entry_def stats Let_def)
qed

lemma set_update_subset: "set (AList.update k v al) \<subseteq> insert (k, v) (set al)"
  by (induction al) auto

lemma queryMrc_classes_result:
  assumes "calculateWindowStats st = stats"
    and P: "\<And>c a e. a \<noteq> 0 \<Longrightarrow> (c, a) \<in> A \<Longrightarrow> class_mrc_entry stats c a B = Some e \<Longrightarrow> P c e"
  shows "set aps \<subseteq> A \<Longrightarrow>
      \<exists>res'. queryMrc_classes stats aps B res = Some res'
      \<and> fst ` set res' = fst ` set res
           \<union> {c. c \<in> snd ` set (snapshot_entries st) \<and> (\<exists>a. (c, a) \<in> set aps \<and> a \<noteq> 0)}
      \<and> (distinct (map fst res) \<longrightarrow> distinct (map fst res'))
      \<and> ((\<forall>(c, e) \<in> set res. P c e) \<longrightarrow> (\<forall>(c, e) \<in> set res'. P c e))"
proof (induction aps arbitrary: res)
  case Nil
  show ?case by simp
next
  case (Cons p aps)
  obtain c a where p: "p = (c, a)" by (cases p)
  from Cons.prems have cin: "(c, a) \<in> A" and sub: "set aps \<subseteq> A" by (simp_all add: p)
  obtain fb lb rb nb mb where stats: "stats = (fb, lb, rb, nb, mb)"
    by (cases stats) auto
  note k = calculateWindowStats_keys [OF assms(1) [unfolded stats]]
  have dom: "map_of (fst stats) c = None \<longleftrightarrow> c \<notin> snd ` set (snapshot_entries st)"
    using k by (simp add: stats map_of_eq_None_iff)
  show ?case
  proof (cases "a = 0 \<or> c \<notin> snd ` set (snapshot_entries st)")
    case True
    then have "queryMrc_classes stats (p # aps) B res = queryMrc_classes stats aps B res"
      using dom by (auto simp: p)
    moreover have "{c'. c' \<in> snd ` set (snapshot_entries st) \<and> (\<exists>a'. (c', a') \<in> set (p # aps) \<and> a' \<noteq> 0)}
       = {c'. c' \<in> snd ` set (snapshot_entries st) \<and> (\<exists>a'. (c', a') \<in> set aps \<and> a' \<noteq> 0)}"
      using True by (auto simp: p)
    ultimately show ?thesis
      using Cons.IH [OF sub, of res] by simp
  next
    case False
    then have a: "a \<noteq> 0" and c: "c \<in> snd ` set (snapshot_entries st)" by auto
    from class_mrc_entry_total [OF assms(1) c] obtain e where
      e: "class_mrc_entry stats c a B = Some e" by blast
    from dom c have nn: "map_of (fst stats) c \<noteq> None" by simp
    have step: "queryMrc_classes stats (p # aps) B res
                  = queryMrc_classes stats aps B (AList.update c e res)"
      using a nn e by (auto simp: p)
    from Cons.IH [OF sub, of "AList.update c e res"] obtain res' where
      r: "queryMrc_classes stats aps B (AList.update c e res) = Some res'"
      and s: "fst ` set res' = fst ` set (AList.update c e res)
           \<union> {c. c \<in> snd ` set (snapshot_entries st) \<and> (\<exists>a. (c, a) \<in> set aps \<and> a \<noteq> 0)}"
      and d: "distinct (map fst (AList.update c e res)) \<longrightarrow> distinct (map fst res')"
      and g: "(\<forall>(c, e) \<in> set (AList.update c e res). P c e)
                \<longrightarrow> (\<forall>(c, e) \<in> set res'. P c e)"
      by (elim exE conjE)
    have s': "fst ` set res' = fst ` set res
           \<union> {c'. c' \<in> snd ` set (snapshot_entries st) \<and> (\<exists>a'. (c', a') \<in> set (p # aps) \<and> a' \<noteq> 0)}"
      using s a c by (auto simp: p dom_update)
    have d': "distinct (map fst res) \<longrightarrow> distinct (map fst res')"
      using d by (simp add: distinct_update)
    have g': "(\<forall>(c, e) \<in> set res. P c e) \<longrightarrow> (\<forall>(c, e) \<in> set res'. P c e)"
    proof
      assume h: "\<forall>(c, e) \<in> set res. P c e"
      have "\<forall>(c', e') \<in> set (AList.update c e res). P c' e'"
        using set_update_subset [of c e res] h P [OF a cin e] by auto
      with g show "\<forall>(c, e) \<in> set res'. P c e" by (rule mp)
    qed
    show ?thesis
      using step r s' d' g' by simp
  qed
qed

lemma queryMrc_result:
  assumes "\<And>c a e. a \<noteq> 0 \<Longrightarrow> (c, a) \<in> set aps \<Longrightarrow>
             class_mrc_entry (calculateWindowStats st) c a B = Some e \<Longrightarrow> P c e"
  shows "\<exists>result. queryMrc st aps B = Some result
      \<and> fst ` set result
           = {c. c \<in> snd ` set (snapshot_entries st) \<and> (\<exists>a. (c, a) \<in> set aps \<and> a \<noteq> 0)}
      \<and> distinct (map fst result)
      \<and> (\<forall>(c, e) \<in> set result. P c e)"
proof (cases "currentBufferSize st = 0")
  case True
  then have "snapshot_entries st = []"
    by (simp add: snapshot_entries_def)
  with True show ?thesis
    by (simp add: queryMrc_def)
next
  case False
  from queryMrc_classes_result [of st "calculateWindowStats st" "set aps" B P aps "[]",
      OF refl assms subset_refl]
  have "\<exists>result. queryMrc_classes (calculateWindowStats st) aps B [] = Some result
      \<and> fst ` set result
           = {c. c \<in> snd ` set (snapshot_entries st) \<and> (\<exists>a. (c, a) \<in> set aps \<and> a \<noteq> 0)}
      \<and> distinct (map fst result)
      \<and> (\<forall>(c, e) \<in> set result. P c e)"
    by simp
  with False show ?thesis
    by (simp add: queryMrc_def)
qed

lemma queryMrc_curves:
  "\<exists>result. queryMrc st aps B = Some result
      \<and> fst ` set result
           = {c. c \<in> snd ` set (snapshot_entries st) \<and> (\<exists>a. (c, a) \<in> set aps \<and> a \<noteq> 0)}
      \<and> distinct (map fst result)
      \<and> (\<forall>(c, e) \<in> set result. curve_entry aps B c e)"
  by (rule queryMrc_result) (rule class_mrc_entry_curve)

text \<open>
  Claim C7. \<open>queryMrc\<close> always returns a map (no \<open>at\<close> throws). The map has exactly
  one entry for each class that occurs in the window and has a non-zero entry in
  \<open>classIdToAllocsPerSlabMap\<close>; so a class with \<open>allocsPerSlab = 0\<close> and a class absent
  from the window get no entry. An empty window gives the empty map, and the points of
  every entry have exactly the keys \<open>0 .. maxSlabCount\<close>.
\<close>

theorem queryMrc_entries:
  "\<exists>result. queryMrc st classIdToAllocsPerSlabMap maxSlabCount = Some result
     \<and> distinct (map fst result)
     \<and> fst ` set result
          = {c. c \<in> snd ` set (snapshot_entries st)
                \<and> (\<exists>a. (c, a) \<in> set classIdToAllocsPerSlabMap \<and> a \<noteq> 0)}
     \<and> (currentBufferSize st = 0 \<longrightarrow> result = [])
     \<and> (\<forall>(c, mrcPoints, mrcDelta, n) \<in> set result. map fst mrcPoints = [0..<maxSlabCount + 1])"
proof -
  from queryMrc_curves [of st classIdToAllocsPerSlabMap maxSlabCount] obtain result where
    r: "queryMrc st classIdToAllocsPerSlabMap maxSlabCount = Some result"
    and k: "fst ` set result
          = {c. c \<in> snd ` set (snapshot_entries st)
                \<and> (\<exists>a. (c, a) \<in> set classIdToAllocsPerSlabMap \<and> a \<noteq> 0)}"
    and d: "distinct (map fst result)"
    and e: "\<forall>(c, e) \<in> set result. curve_entry classIdToAllocsPerSlabMap maxSlabCount c e"
    by (elim exE conjE)
  have z: "currentBufferSize st = 0 \<longrightarrow> result = []"
    using r by (auto simp: queryMrc_def)
  have p: "\<forall>(c, mrcPoints, mrcDelta, n) \<in> set result. map fst mrcPoints = [0..<maxSlabCount + 1]"
  proof (clarify)
    fix c mrcPoints mrcDelta n
    assume "(c, mrcPoints, mrcDelta, n) \<in> set result"
    with e have "curve_entry classIdToAllocsPerSlabMap maxSlabCount c (mrcPoints, mrcDelta, n)"
      by auto
    then obtain f where "mrcPoints = map (\<lambda>s. (s, f s)) [0..<maxSlabCount + 1]"
      unfolding curve_entry_def by auto
    then show "map fst mrcPoints = [0..<maxSlabCount + 1]"
      by (simp add: comp_def)
  qed
  show ?thesis
    by (rule exI [of _ result]) (intro conjI r d k z p)
qed

text \<open>
  Claim C4. In every entry of the result of \<open>queryMrc\<close>, the points have a value for every
  slab count from \<open>0\<close> to \<open>maxSlabCount\<close>, the miss ratio at slab count \<open>0\<close> is \<open>1\<close> and
  every stored miss ratio lies in \<open>[0, 1]\<close>. If no product \<open>slabCount * allocsPerSlab\<close> of
  the class overflows \<open>size_t\<close>, that is if \<open>maxSlabCount * allocsPerSlab < 2 ^ 64\<close>, the miss
  ratios do not increase as the slab count grows from \<open>0\<close> to \<open>maxSlabCount\<close>.
\<close>

theorem mrcPoints_shape:
  assumes "queryMrc st classIdToAllocsPerSlabMap maxSlabCount = Some result"
    and "(c, mrcPoints, mrcDelta, n) \<in> set result"
  shows "map_of mrcPoints 0 = Some 1
       \<and> (\<forall>s. s \<le> maxSlabCount \<longrightarrow> (\<exists>v. map_of mrcPoints s = Some v))
       \<and> (\<forall>s v. map_of mrcPoints s = Some v \<longrightarrow> 0 \<le> v \<and> v \<le> 1)
       \<and> ((\<forall>a. (c, a) \<in> set classIdToAllocsPerSlabMap \<longrightarrow> maxSlabCount * a < 2 ^ 64) \<longrightarrow>
            (\<forall>s t. s \<le> t \<and> t \<le> maxSlabCount \<longrightarrow>
              (\<exists>v u. map_of mrcPoints s = Some v \<and> map_of mrcPoints t = Some u \<and> u \<le> v)))"
proof -
  from queryMrc_curves [of st classIdToAllocsPerSlabMap maxSlabCount] assms(1)
  have "\<forall>(c, e) \<in> set result. curve_entry classIdToAllocsPerSlabMap maxSlabCount c e" by auto
  with assms(2)
  have "curve_entry classIdToAllocsPerSlabMap maxSlabCount c (mrcPoints, mrcDelta, n)" by auto
  then obtain h fp a where a: "a \<noteq> 0" and ca: "(c, a) \<in> set classIdToAllocsPerSlabMap"
    and pts: "mrcPoints = map (\<lambda>s. (s, missRatioAt n h fp a s)) [0..<maxSlabCount + 1]"
    unfolding curve_entry_def by auto
  have look: "map_of mrcPoints s = (if s \<le> maxSlabCount then Some (missRatioAt n h fp a s) else None)"
    for s unfolding pts map_of_keyed by auto
  have z: "map_of mrcPoints 0 = Some 1"
    by (simp add: look missRatioAt_zero)
  have e: "\<forall>s. s \<le> maxSlabCount \<longrightarrow> (\<exists>v. map_of mrcPoints s = Some v)"
    by (simp add: look)
  have b: "\<forall>s v. map_of mrcPoints s = Some v \<longrightarrow> 0 \<le> v \<and> v \<le> 1"
    using missRatioAt_bounds [of n h fp a] by (auto simp: look split: if_splits)
  have m: "\<forall>s t. s \<le> t \<and> t \<le> maxSlabCount \<longrightarrow>
            (\<exists>v u. map_of mrcPoints s = Some v \<and> map_of mrcPoints t = Some u \<and> u \<le> v)"
    if small: "\<forall>a. (c, a) \<in> set classIdToAllocsPerSlabMap \<longrightarrow> maxSlabCount * a < 2 ^ 64"
  proof (intro allI impI)
    fix s t assume st: "s \<le> t \<and> t \<le> maxSlabCount"
    then have "t * a \<le> maxSlabCount * a" by simp
    moreover from small ca have "maxSlabCount * a < 2 ^ 64" by blast
    ultimately have "t * a < 2 ^ 64" by (rule le_less_trans)
    from missRatioAt_antimono [OF a _ this, of s n h fp] st
    have "missRatioAt n h fp a t \<le> missRatioAt n h fp a s" by simp
    with st show "\<exists>v u. map_of mrcPoints s = Some v \<and> map_of mrcPoints t = Some u \<and> u \<le> v"
      by (simp add: look)
  qed
  from z e b m show ?thesis by (intro conjI impI)
qed

lemma example_window_entries:
  "snapshot_entries example_window = [(7, 1), (8, 2), (7, 1)]"
  by code_simp

lemma example_window_mrc:
  "queryMrc example_window [(1, 2), (2, 0), (3, 5)] 2
     = Some [(1, [(0, 1), (1, 1 / 2), (2, 1 / 2)], [(1, 1 / 2), (2, 0)], 2)]"
  by code_simp

theorem queryMrc_entries_witness:
  "\<exists>result. queryMrc example_window [(1, 2), (2, 0), (3, 5)] 2 = Some result
     \<and> distinct (map fst result)
     \<and> fst ` set result = {1}
     \<and> result = [(1, [(0, 1), (1, 1 / 2), (2, 1 / 2)], [(1, 1 / 2), (2, 0)], 2)]
     \<and> map fst (fst (snd (hd result))) = [0 ..< 2 + 1]"
  using queryMrc_entries [of example_window "[(1, 2), (2, 0), (3, 5)]" 2]
  by (auto simp: example_window_mrc)

theorem mrcPoints_shape_witness:
  "\<exists>result c mrcPoints mrcDelta n.
      queryMrc example_window [(1, 2), (2, 0), (3, 5)] 2 = Some result
    \<and> (c, mrcPoints, mrcDelta, n) \<in> set result
    \<and> map_of mrcPoints 0 = Some 1
    \<and> (\<exists>v u. map_of mrcPoints 1 = Some v \<and> map_of mrcPoints 2 = Some u \<and> u \<le> v
            \<and> 0 \<le> u \<and> v \<le> 1)"
proof -
  let ?pts = "[(0, 1), (1, 1 / 2), (2, 1 / 2)] :: (nat \<times> real) list"
  let ?dl = "[(1, 1 / 2), (2, 0)] :: (nat \<times> real) list"
  let ?res = "[(1, ?pts, ?dl, 2)] :: (ClassId \<times> class_mrc) list"
  have m: "(1, ?pts, ?dl, 2) \<in> set ?res" by simp
  have small: "\<forall>a. (1, a) \<in> set [(1 :: ClassId, 2 :: nat), (2, 0), (3, 5)] \<longrightarrow> 2 * a < 2 ^ 64"
    by simp
  note t = mrcPoints_shape [OF example_window_mrc m]
  from t have z: "map_of ?pts 0 = Some 1" by (rule conjunct1)
  from t have b: "\<forall>s v. map_of ?pts s = Some v \<longrightarrow> 0 \<le> v \<and> v \<le> 1"
    by (elim conjE)
  from t have "(\<forall>a. (1, a) \<in> set [(1 :: ClassId, 2 :: nat), (2, 0), (3, 5)] \<longrightarrow> 2 * a < 2 ^ 64) \<longrightarrow>
      (\<forall>s t. s \<le> t \<and> t \<le> 2 \<longrightarrow>
              (\<exists>v u. map_of ?pts s = Some v \<and> map_of ?pts t = Some u \<and> u \<le> v))"
    by (elim conjE)
  from this [THEN mp, OF small] have "(1::nat) \<le> 2 \<and> (2::nat) \<le> 2 \<longrightarrow>
        (\<exists>v u. map_of ?pts 1 = Some v \<and> map_of ?pts 2 = Some u \<and> u \<le> v)" by blast
  then obtain v u where vu: "map_of ?pts 1 = Some v" "map_of ?pts 2 = Some u" "u \<le> v"
    by auto
  from b vu have "0 \<le> u" "v \<le> 1" by blast+
  with vu
  have "\<exists>v u. map_of ?pts 1 = Some v \<and> map_of ?pts 2 = Some u \<and> u \<le> v \<and> 0 \<le> u \<and> v \<le> 1"
    by blast
  with example_window_mrc m z show ?thesis by blast
qed

lemma example_pair_reached:
  "map_sum id (feeds (\<lambda>key. key) [(1, 1), (1, 1)]) (new_FootprintMRC 2) = Inr example_pair"
  by code_simp

lemma example_pair_stats:
  "calculateWindowStats example_pair = ([(1, [1])], [(1, [1])], [(1, [0, 1])], [(1, 2)], [(1, 1)])"
  by code_simp

lemma example_pair_fp: "calculateFpValues [1] [1] [0, 1] 2 1 = [0, 1, 1]"
  by code_simp

lemma example_pair_hits:
  "hitCount [0, 1] [0, 1, 1] cacheSize = (if 1 < real cacheSize then 1 else 0)"
  by (simp add: hitCount_def)

lemma example_pair_ratios:
  "missRatioAt 2 [0, 1] [0, 1, 1] (2 ^ 63) 0 = 1"
  "missRatioAt 2 [0, 1] [0, 1, 1] (2 ^ 63) 1 = 1 / 2"
  "missRatioAt 2 [0, 1] [0, 1, 1] (2 ^ 63) 2 = 1"
  unfolding missRatioAt_def size_t_wrap_def Let_def example_pair_hits
  by simp_all

lemma example_pair_curve:
  "mrc_curve 2 [0, 1] [0, 1, 1] (2 ^ 63) 2
     = ([(0, 1), (1, 1 / 2), (2, 1)], [(1, 1 / 2), (2, - 1 / 2)], 1)"
proof -
  have idx: "[0..<2 + 1] = [0, 1, 2]" by (simp add: upt_rec)
  show ?thesis
    unfolding mrc_curve_def idx fold_Cons fold_Nil comp_def id_def Let_def prod.case
      example_pair_ratios
    by simp
qed

lemma example_pair_mrc:
  "queryMrc example_pair [(1, 2 ^ 63)] 2
     = Some [(1, [(0, 1), (1, 1 / 2), (2, 1)], [(1, 1 / 2), (2, - 1 / 2)], 2)]"
proof -
  have b: "currentBufferSize example_pair \<noteq> 0" by (simp add: example_pair_def)
  have "class_mrc_entry (calculateWindowStats example_pair) 1 (2 ^ 63) 2
          = Some ([(0, 1), (1, 1 / 2), (2, 1)], [(1, 1 / 2), (2, - 1 / 2)], 2)"
    unfolding example_pair_stats class_mrc_entry_def prod.case
    using example_pair_fp example_pair_curve by simp
  then show ?thesis
    unfolding queryMrc_def if_not_P [OF b] by (simp add: example_pair_stats)
qed

text \<open>
  Without the bound the miss ratios can increase. A ring of two slots has been fed key \<open>1\<close>
  of class \<open>1\<close> twice; with \<open>allocsPerSlab = 2 ^ 63\<close> the cache size of two slabs wraps
  around to \<open>0\<close>, and the curve is \<open>1, 1/2, 1\<close>: the miss ratio of two slabs is above
  the miss ratio of one slab.
\<close>

theorem mrcPoints_overflow:
  "queryMrc example_pair [(1, 2 ^ 63)] 2
     = Some [(1, [(0, 1), (1, 1 / 2), (2, 1)], [(1, 1 / 2), (2, - 1 / 2)], 2)]
   \<and> map_of [(0 :: nat, 1 :: real), (1, 1 / 2), (2, 1)] 1 = Some (1 / 2)
   \<and> map_of [(0 :: nat, 1 :: real), (1, 1 / 2), (2, 1)] 2 = Some 1
   \<and> (1 / 2 :: real) < 1"
  using example_pair_mrc by simp

section \<open>The sorting routine\<close>

lemma count_list_insort_key: "count_list (insort_key f a xs) x = count_list (a # xs) x"
  by (induction xs) auto

lemma count_list_sort_key: "count_list (sort_key f xs) x = count_list xs x"
  by (induction xs) (simp_all add: count_list_insort_key)

lemma std_sort_spec_sort_key: "std_sort_spec sort_key"
  by (simp add: std_sort_spec_def count_list_sort_key)

lemma std_sort_sorted: "std_sort_spec std_sort \<Longrightarrow> sorted (map f (std_sort f xs))"
  by (simp add: std_sort_spec_def)

lemma std_sort_count:
  "std_sort_spec std_sort \<Longrightarrow> count_list (std_sort f xs) x = count_list xs x"
  by (simp add: std_sort_spec_def)

lemma std_sort_set:
  assumes "std_sort_spec std_sort"
  shows "set (std_sort f xs) = set xs"
proof -
  have "x \<in> set (std_sort f xs) \<longleftrightarrow> x \<in> set xs" for x
    using std_sort_count [OF assms, of f xs x]
    by (metis count_list_0_iff)
  then show ?thesis by blast
qed

lemma std_sort_length:
  assumes "std_sort_spec std_sort"
  shows "length (std_sort f xs) = length xs"
proof -
  have "length (std_sort f xs) = sum (count_list (std_sort f xs)) (set xs)"
    by (rule sum_count_set [symmetric]) (simp_all add: std_sort_set [OF assms])
  also have "\<dots> = sum (count_list xs) (set xs)"
    by (simp add: std_sort_count [OF assms])
  also have "\<dots> = length xs"
    by (rule sum_count_set) simp_all
  finally show ?thesis .
qed

lemma std_sort_single:
  assumes "std_sort_spec std_sort"
  shows "std_sort f [c] = [c]"
proof -
  from std_sort_length [OF assms, of f "[c]"] obtain y where y: "std_sort f [c] = [y]"
    by (cases "std_sort f [c]") auto
  from std_sort_set [OF assms, of f "[c]"] have "y = c" unfolding y by simp
  with y show ?thesis by simp
qed

section \<open>The solver\<close>

subsection \<open>The loops over the class ids\<close>

lemma map_of_in_keys: "c \<in> fst ` set d \<Longrightarrow> \<exists>e. map_of d c = Some e"
  by (metis map_of_eq_None_iff not_None_eq)

lemma accessFrequencies_loop_eq:
  assumes "set cs \<subseteq> fst ` set d" and "distinct cs" and "set cs \<inter> fst ` set acc = {}"
  shows "accessFrequencies_loop d cs acc
           = Some (acc @ map (\<lambda>c. (c, snd (snd (the (map_of d c))))) cs)"
  using assms
proof (induction cs arbitrary: acc)
  case Nil
  show ?case by simp
next
  case (Cons c cs)
  from Cons.prems(1) obtain e where e: "map_of d c = Some e"
    using map_of_in_keys [of c d] by auto
  from Cons.prems(3) have fresh: "c \<notin> fst ` set acc" by auto
  have "set cs \<inter> fst ` set (acc @ [(c, snd (snd e))]) = {}"
    using Cons.prems(2,3) by auto
  with Cons.IH [of "acc @ [(c, snd (snd e))]"] Cons.prems(1,2) show ?case
    by (simp add: e update_fresh [OF fresh])
qed

lemma costTable_loop_eq:
  assumes "set cs \<subseteq> fst ` set d"
  shows "costTable_loop d cs B = Some (map (\<lambda>c. cost_row (the (map_of d c)) B) cs)"
  using assms
proof (induction cs)
  case Nil
  show ?case by simp
next
  case (Cons c cs)
  from Cons.prems obtain e where e: "map_of d c = Some e"
    using map_of_in_keys [of c d] by auto
  with Cons show ?case by simp
qed

subsection \<open>The dynamic program\<close>

lemma dp_cell_fold_le:
  "(\<forall>k \<in> set ks. k \<le> j) \<Longrightarrow> b \<le> j \<Longrightarrow>
   snd (fold (\<lambda>k (Fij, Bij).
             case Fprev ! (j - k) of
               None \<Rightarrow> (Fij, Bij)
             | Some FprevCost \<Rightarrow>
                 let currentClassCost = costRow ! k;
                     tempCost = FprevCost + currentClassCost
                 in if cost_lt tempCost Fij then (Some tempCost, k) else (Fij, Bij)) ks (f, b)) \<le> j"
proof (induction ks arbitrary: f b)
  case Nil
  then show ?case by simp
next
  case (Cons k ks)
  show ?case
    unfolding fold_Cons comp_def
    using Cons.prems
    by (cases "Fprev ! (j - k)") (auto simp: Let_def intro!: Cons.IH)
qed

lemma dp_cell_le: "snd (dp_cell Fprev costRow M j) \<le> j"
  unfolding dp_cell_def by (rule dp_cell_fold_le) auto

lemma dp_cell_fold_skip:
  "(\<forall>k \<in> set ks. Fprev ! (j - k) = None) \<Longrightarrow>
   fold (\<lambda>k (Fij, Bij).
             case Fprev ! (j - k) of
               None \<Rightarrow> (Fij, Bij)
             | Some FprevCost \<Rightarrow>
                 let currentClassCost = costRow ! k;
                     tempCost = FprevCost + currentClassCost
                 in if cost_lt tempCost Fij then (Some tempCost, k) else (Fij, Bij)) ks acc = acc"
  by (induction ks arbitrary: acc) (auto split: prod.splits)

text \<open>Row 1 of the tables: with one class, all \<open>j\<close> slabs go to it.\<close>

lemma dp_cell_first_row:
  assumes "j \<le> M"
  shows "dp_cell (Some 0 # replicate M None) costRow M j = (Some (costRow ! j), j)"
proof -
  have ks: "[0..<min j M + 1] = [0..<j] @ [j]"
    using assms by (simp add: min_def)
  have none: "\<forall>k \<in> set [0..<j]. (Some 0 # replicate M None) ! (j - k) = (None :: real option)"
    using assms by (auto simp: nth_Cons')
  show ?thesis
    unfolding dp_cell_def ks fold_append comp_def dp_cell_fold_skip [OF none]
    by (simp add: cost_lt_def)
qed

lemma dp_fold_length:
  "length (snd (fold (dp_step ct M) is FB)) = length (snd FB)"
  by (induction "is" arbitrary: FB) (auto simp: dp_step_def Let_def split: prod.splits)

lemma dp_fold_rows_le:
  assumes "\<forall>i < length (snd FB). \<forall>j \<le> M. snd FB ! i ! j \<le> j"
  shows "\<forall>i < length (snd FB). \<forall>j \<le> M. snd (fold (dp_step ct M) is FB) ! i ! j \<le> j"
  using assms
proof (induction "is" arbitrary: FB)
  case Nil
  then show ?case by simp
next
  case (Cons i "is")
  obtain F B where FB: "FB = (F, B)" by (cases FB)
  let ?B' = "B[i := map snd (map (dp_cell (F ! (i - 1)) (ct ! (i - 1)) M) [0..<M + 1])]"
  have step: "snd (dp_step ct M i FB) = ?B'"
    by (simp add: dp_step_def FB Let_def)
  have "\<forall>i' < length ?B'. \<forall>j \<le> M. ?B' ! i' ! j \<le> j"
  proof (intro allI impI)
    fix i' j assume i': "i' < length ?B'" and j: "j \<le> M"
    show "?B' ! i' ! j \<le> j"
    proof (cases "i' = i")
      case True
      with i' j have "?B' ! i' ! j = snd (dp_cell (F ! (i - 1)) (ct ! (i - 1)) M j)"
        by (simp del: upt_Suc)
      then show ?thesis by (simp add: dp_cell_le)
    next
      case False
      with i' j Cons.prems show ?thesis by (simp add: FB)
    qed
  qed
  then have pre: "\<forall>i' < length (snd (dp_step ct M i FB)). \<forall>j \<le> M.
      snd (dp_step ct M i FB) ! i' ! j \<le> j"
    unfolding step .
  have len: "length (snd (dp_step ct M i FB)) = length (snd FB)"
    unfolding step by (simp add: FB)
  from Cons.IH [OF pre] show ?case
    unfolding fold_Cons comp_def len .
qed

lemma dp_fold_keeps_row:
  "\<forall>i \<in> set is. r \<noteq> i \<Longrightarrow> snd (fold (dp_step ct M) is FB) ! r = snd FB ! r"
proof (induction "is" arbitrary: FB)
  case Nil
  show ?case by simp
next
  case (Cons i "is")
  obtain F B where FB: "FB = (F, B)" by (cases FB)
  from Cons.prems have "snd (dp_step ct M i FB) ! r = snd FB ! r"
    by (simp add: dp_step_def FB Let_def)
  with Cons show ?case by simp
qed

lemma dp_tables_length: "length (snd (dp_tables ct M)) = length ct + 1"
  by (simp add: dp_tables_def dp_fold_length)

lemma dp_tables_le:
  assumes "i \<le> length ct" and "j \<le> M"
  shows "snd (dp_tables ct M) ! i ! j \<le> j"
proof -
  let ?FB = "((Some 0 # replicate M None) # replicate (length ct) (replicate (M + 1) None),
        replicate (length ct + 1) (replicate (M + 1) (0::nat)))"
  have "\<forall>i < length (snd ?FB). \<forall>j \<le> M. snd ?FB ! i ! j \<le> j"
    by (auto simp del: replicate_Suc upt_Suc)
  from dp_fold_rows_le [OF this, of ct "[1..<length ct + 1]"] assms show ?thesis
    by (simp add: dp_tables_def del: replicate_Suc upt_Suc)
qed

lemma dp_tables_first_row:
  assumes "1 \<le> length ct" and "j \<le> M"
  shows "snd (dp_tables ct M) ! 1 ! j = j"
proof -
  let ?FB = "((Some 0 # replicate M None) # replicate (length ct) (replicate (M + 1) None),
        replicate (length ct + 1) (replicate (M + 1) (0::nat)))"
  from assms(1) have "1 < length ct + 1" by linarith
  then have idx: "[1..<length ct + 1] = 1 # [Suc 1..<length ct + 1]"
    by (rule upt_conv_Cons)
  have keep: "\<forall>i \<in> set [Suc 1..<length ct + 1]. 1 \<noteq> i" by auto
  have "snd (dp_tables ct M) ! 1 = snd (dp_step ct M 1 ?FB) ! 1"
    unfolding dp_tables_def idx fold_Cons comp_def
    by (rule dp_fold_keeps_row [OF keep])
  also have "\<dots> = map snd (map (dp_cell (Some 0 # replicate M None) (ct ! 0) M) [0..<M + 1])"
  proof -
    from assms(1) have "Suc 0 < length (replicate (length ct + 1) (replicate (M + 1) (0::nat)))"
      by (cases ct) simp_all
    then show ?thesis
      by (simp add: dp_step_def Let_def del: replicate_Suc upt_Suc)
  qed
  finally show ?thesis
    using assms(2) by (simp add: dp_cell_first_row del: upt_Suc)
qed


subsection \<open>Reading the allocation back\<close>

lemma reconstruct_fold:
  assumes "distinct (map (\<lambda>i. classIds ! (i - 1)) is)"
    and "\<forall>i \<in> set is. classIds ! (i - 1) \<notin> fst ` set opt"
    and "\<forall>i \<in> set is. \<forall>j \<le> M. B ! i ! j \<le> j"
    and "rem \<le> M"
  shows "map fst (fst (fold (reconstruct_step B classIds) is (opt, rem)))
           = map fst opt @ map (\<lambda>i. classIds ! (i - 1)) is
       \<and> sum_list (map snd (fst (fold (reconstruct_step B classIds) is (opt, rem))))
           + snd (fold (reconstruct_step B classIds) is (opt, rem))
           = sum_list (map snd opt) + rem
       \<and> snd (fold (reconstruct_step B classIds) is (opt, rem)) \<le> M"
  using assms
proof (induction "is" arbitrary: opt rem)
  case Nil
  then show ?case by simp
next
  case (Cons i "is")
  let ?c = "classIds ! (i - 1)"
  let ?s = "B ! i ! rem"
  from Cons.prems(2) have fresh: "?c \<notin> fst ` set opt" by simp
  have step: "reconstruct_step B classIds i (opt, rem) = (opt @ [(?c, ?s)], rem - ?s)"
    using update_fresh [OF fresh] by (simp add: reconstruct_step_def Let_def)
  from Cons.prems(3,4) have le: "?s \<le> rem" by simp
  have 1: "distinct (map (\<lambda>i. classIds ! (i - 1)) is)"
    using Cons.prems(1) by simp
  have 2: "\<forall>i \<in> set is. classIds ! (i - 1) \<notin> fst ` set (opt @ [(?c, ?s)])"
    using Cons.prems(1,2) by (auto simp: image_iff)
  have 3: "\<forall>i \<in> set is. \<forall>j \<le> M. B ! i ! j \<le> j"
    using Cons.prems(3) by simp
  have 4: "rem - ?s \<le> M"
    using Cons.prems(4) by simp
  from Cons.IH [OF 1 2 3 4] le show ?case
    by (simp add: step)
qed

lemma reconstruct_sum:
  assumes "distinct classIds" and "1 \<le> length classIds"
    and le: "\<forall>i \<le> length classIds. \<forall>j \<le> M. B ! i ! j \<le> j"
    and first: "\<forall>j \<le> M. B ! 1 ! j = j"
  shows "map fst (reconstruct B classIds M) = rev classIds
       \<and> sum_list (map snd (reconstruct B classIds M)) = M"
proof -
  let ?K = "length classIds"
  let ?f = "\<lambda>i. classIds ! (i - 1)"
  define js where "js = [Suc 1..<?K + 1]"
  from assms(2) have "1 < ?K + 1" by linarith
  then have idx: "[1..<?K + 1] = 1 # js"
    unfolding js_def by (rule upt_conv_Cons)
  have "map ?f [1..<?K + 1] = classIds"
    by (rule nth_equalityI) (auto simp del: upt_Suc)
  then have names: "classIds = ?f 1 # map ?f js"
    unfolding idx by simp
  with assms(1) have dn: "distinct (?f 1 # map ?f js)" by simp
  then have d: "distinct (map ?f (rev js))"
    by (simp add: rev_map [symmetric])
  have l: "\<forall>i \<in> set (rev js). \<forall>j \<le> M. B ! i ! j \<le> j"
    using le by (auto simp: js_def)
  have e: "\<forall>i \<in> set (rev js). ?f i \<notin> fst ` set ([] :: (ClassId \<times> nat) list)" by simp
  let ?r = "fold (reconstruct_step B classIds) (rev js) ([], M)"
  note rf = reconstruct_fold [OF d e l order_refl]
  from rf have k: "map fst (fst ?r) = map ?f (rev js)" by simp
  from rf have s: "sum_list (map snd (fst ?r)) + snd ?r = M" by simp
  from rf have b: "snd ?r \<le> M" by simp
  have fresh: "?f 1 \<notin> fst ` set (fst ?r)"
  proof -
    have "fst ` set (fst ?r) = set (map fst (fst ?r))" by simp
    also have "\<dots> = set (map ?f js)" unfolding k by (simp add: rev_map)
    finally show ?thesis
      using dn by simp
  qed
  have "fold (reconstruct_step B classIds) (rev [1..<?K + 1]) ([], M)
          = reconstruct_step B classIds 1 ?r"
    unfolding idx by simp
  also have "\<dots> = (fst ?r @ [(?f 1, B ! 1 ! snd ?r)], snd ?r - B ! 1 ! snd ?r)"
    using update_fresh [OF fresh] by (cases ?r) (simp add: reconstruct_step_def Let_def)
  finally have r: "reconstruct B classIds M = fst ?r @ [(?f 1, B ! 1 ! snd ?r)]"
    by (simp add: reconstruct_def)
  from first b have "B ! 1 ! snd ?r = snd ?r" by simp
  with s have "sum_list (map snd (reconstruct B classIds M)) = M"
    by (simp add: r)
  moreover have "map fst (reconstruct B classIds M) = rev classIds"
  proof -
    have "map fst (reconstruct B classIds M) = rev (?f 1 # map ?f js)"
      by (simp add: r k rev_map)
    with names show ?thesis by simp
  qed
  ultimately show ?thesis by simp
qed


subsection \<open>Completing the allocation and queueing the moves\<close>

lemma fill_missing_props:
  "sum_list (map snd (fill_missing cs opt)) = sum_list (map snd opt)
   \<and> fst ` set (fill_missing cs opt) = fst ` set opt \<union> set cs
   \<and> (distinct (map fst opt) \<longrightarrow> distinct (map fst (fill_missing cs opt)))"
proof (induction cs arbitrary: opt)
  case Nil
  show ?case by (simp add: fill_missing_def)
next
  case (Cons c cs)
  show ?case
  proof (cases "map_of opt c = None")
    case True
    then have fresh: "c \<notin> fst ` set opt" by (simp add: map_of_eq_None_iff)
    have "fill_missing (c # cs) opt = fill_missing cs (opt @ [(c, 0)])"
      using True update_fresh [OF fresh] by (simp add: fill_missing_def)
    with Cons [of "opt @ [(c, 0)]"] fresh show ?thesis by auto
  next
    case False
    then have "c \<in> fst ` set opt" by (simp add: map_of_eq_None_iff)
    moreover have "fill_missing (c # cs) opt = fill_missing cs opt"
      using False by (auto simp: fill_missing_def)
    ultimately show ?thesis using Cons [of opt] by auto
  qed
qed

lemma fold_insort_insert:
  "sorted ys \<Longrightarrow> distinct ys \<Longrightarrow>
   sorted (fold insort_insert xs ys) \<and> distinct (fold insort_insert xs ys)
   \<and> set (fold insort_insert xs ys) = set xs \<union> set (ys :: ClassId list)"
proof (induction xs arbitrary: ys)
  case Nil
  then show ?case by simp
next
  case (Cons x xs)
  from Cons.prems have "sorted (insort_insert x ys)" "distinct (insort_insert x ys)"
    by (simp_all add: sorted_insort_insert distinct_insort_insert)
  from Cons.IH [OF this] show ?case
    by (auto simp: set_insort_insert)
qed

lemma allRelevantClassIds_props:
  "sorted (allRelevantClassIds_of classIds cur) \<and> distinct (allRelevantClassIds_of classIds cur)
   \<and> set (allRelevantClassIds_of classIds cur) = set classIds \<union> fst ` set cur"
proof -
  have 1: "sorted (fold insort_insert classIds []) \<and> distinct (fold insort_insert classIds [])
      \<and> set (fold insort_insert classIds []) = set classIds"
    using fold_insort_insert [of "[]" classIds] by simp
  then have "sorted (fold insort_insert classIds [])" "distinct (fold insort_insert classIds [])"
    by simp_all
  from fold_insort_insert [OF this, of "map fst cur"] 1 show ?thesis
    unfolding allRelevantClassIds_of_def by auto
qed

lemma subscript_Some: "map_of m k = Some v \<Longrightarrow> subscript d m k = v"
  by (simp add: subscript_def)

lemma move_queues_eq:
  assumes "\<forall>c \<in> set cs. map_of opt c \<noteq> None"
  shows "move_queues opt cur cs q =
     Some (fst q @ concat (map (\<lambda>c. replicate (subscript 0 cur c - subscript 0 opt c) c) cs),
           snd q @ concat (map (\<lambda>c. replicate (subscript 0 opt c - subscript 0 cur c) c) cs))"
  using assms
proof (induction cs arbitrary: q)
  case Nil
  show ?case by simp
next
  case (Cons c cs)
  from Cons.prems obtain v where v: "map_of opt c = Some v" by auto
  have o: "subscript 0 opt c = v" by (rule subscript_Some [OF v])
  have cu: "(case map_of cur c of Some v \<Rightarrow> v | None \<Rightarrow> 0) = subscript 0 cur c"
    by (simp add: subscript_def)
  from Cons.prems have rest: "\<forall>c \<in> set cs. map_of opt c \<noteq> None" by simp
  show ?case
    by (simp add: v cu o Cons.IH [OF rest] Let_def)
qed

lemma plan_zip:
  "map (\<lambda>i. (xs ! i, ys ! i)) [0..<min (length xs) (length ys)] = zip xs ys"
  by (rule nth_equalityI) simp_all


subsection \<open>The result of the solver\<close>

lemma solve_classes_result:
  assumes d: "distinct (map fst d)" and ne: "d \<noteq> []"
  shows "\<exists>mrOld mrNew opt freqs.
     solve_classes std_sort d cur M = Some (mrOld, mrNew, opt,
        zip (std_sort (score freqs cur) (victim_queue opt cur)) (receiver_queue opt cur),
        freqs)
     \<and> sum_list (map snd opt) = M \<and> distinct (map fst opt)
     \<and> fst ` set opt = fst ` set d \<union> fst ` set cur
     \<and> freqs = map (\<lambda>c. (c, snd (snd (the (map_of d c))))) (sort (map fst d))"
proof -
  define classIds where "classIds = sort (map fst d)"
  have cs_set: "set classIds = fst ` set d" and cs_dist: "distinct classIds"
    using d by (simp_all add: classIds_def)
  from ne have cs_len: "1 \<le> length classIds"
    by (cases d) (simp_all add: classIds_def)
  define freqs where "freqs = map (\<lambda>c. (c, snd (snd (the (map_of d c))))) classIds"
  have af: "accessFrequencies_loop d classIds [] = Some freqs"
    using accessFrequencies_loop_eq [of classIds d "[]"] cs_set cs_dist
    by (simp add: freqs_def)
  define ct where "ct = map (\<lambda>c. cost_row (the (map_of d c)) M) classIds"
  have ctl: "costTable_loop d classIds M = Some ct"
    using costTable_loop_eq [of classIds d M] cs_set by (simp add: ct_def)
  have ct_len: "length ct = length classIds" by (simp add: ct_def)
  define B where "B = snd (dp_tables ct M)"
  have le: "\<forall>i \<le> length classIds. \<forall>j \<le> M. B ! i ! j \<le> j"
    using dp_tables_le [of _ ct _ M] by (simp add: B_def ct_len)
  have first: "\<forall>j \<le> M. B ! 1 ! j = j"
    using dp_tables_first_row [of ct _ M] cs_len by (simp add: B_def ct_len)
  define rc where "rc = reconstruct B classIds M"
  from reconstruct_sum [OF cs_dist cs_len le first]
  have rc_keys: "map fst rc = rev classIds" and rc_sum: "sum_list (map snd rc) = M"
    by (simp_all add: rc_def)
  define arc where "arc = allRelevantClassIds_of classIds cur"
  note ap = allRelevantClassIds_props [of classIds cur, folded arc_def]
  define opt where "opt = fill_missing arc rc"
  note fm = fill_missing_props [of arc rc, folded opt_def]
  from rc_keys have "set (map fst rc) = set classIds" by simp
  then have rc_set: "fst ` set rc = set classIds" by simp
  from rc_keys cs_dist have rc_dist: "distinct (map fst rc)" by simp
  have opt_sum: "sum_list (map snd opt) = M" using fm rc_sum by simp
  have opt_keys: "fst ` set opt = fst ` set d \<union> fst ` set cur"
    using fm ap rc_set cs_set by auto
  have opt_dist: "distinct (map fst opt)" using fm rc_dist by simp
  have arc_eq: "arc = sorted_list_of_set (fst ` set opt)"
  proof -
    have "set arc = fst ` set opt" using ap opt_keys cs_set by auto
    moreover from ap have "sorted arc" "distinct arc" by simp_all
    then have "sorted_list_of_set (set arc) = arc"
      by (rule sorted_list_of_set.idem_if_sorted_distinct)
    ultimately show ?thesis by simp
  qed
  have "\<forall>c \<in> set arc. map_of opt c \<noteq> None"
    using fm by (auto simp: map_of_eq_None_iff)
  note mq = move_queues_eq [OF this, of cur "([], [])"]
  have "solve_classes std_sort d cur M = Some
     ((if sum_list (map snd freqs) > 0
       then total_misses d cur / real (sum_list (map snd freqs)) else 0),
      (if sum_list (map snd freqs) > 0
       then total_misses d opt / real (sum_list (map snd freqs)) else 0),
      opt,
      zip (std_sort (score freqs cur)
               (concat (map (\<lambda>c. replicate (subscript 0 cur c - subscript 0 opt c) c) arc)))
          (concat (map (\<lambda>c. replicate (subscript 0 opt c - subscript 0 cur c) c) arc)),
      freqs)"
    unfolding solve_classes_def
    by (simp add: classIds_def [symmetric] af ctl B_def [symmetric] arc_def [symmetric]
        rc_def [symmetric] opt_def [symmetric] mq plan_zip Let_def del: upt_Suc)
  with opt_sum opt_dist opt_keys show ?thesis
    unfolding arc_eq freqs_def classIds_def victim_queue_def receiver_queue_def
    by (intro exI conjI) (assumption | rule refl)+
qed


lemma queryMrc_no_classes: "queryMrc st [] M = Some []"
  by (simp add: queryMrc_def)

lemma solveSlabReallocation_cases:
  "\<exists>d. queryMrc st aps (sum_list (map snd cur)) = Some d \<and> distinct (map fst d)
     \<and> solveSlabReallocation std_sort st aps cur
         = (if d = [] then Some (0, 0, [], [], []) else solve_classes std_sort d cur (sum_list (map snd cur)))"
proof -
  from queryMrc_curves [of st aps "sum_list (map snd cur)"] obtain d where
    q: "queryMrc st aps (sum_list (map snd cur)) = Some d" and dd: "distinct (map fst d)"
    by (elim exE conjE)
  have "d = []" if "aps = []"
    using q that by (simp add: queryMrc_no_classes)
  then have "solveSlabReallocation std_sort st aps cur
         = (if d = [] then Some (0, 0, [], [], []) else solve_classes std_sort d cur (sum_list (map snd cur)))"
    unfolding solveSlabReallocation_def by (simp add: q Let_def)
  with q dd show ?thesis by (intro exI [of _ d] conjI)
qed

text \<open>
  Claim C1. Whenever the miss ratio curve query inside \<open>solveSlabReallocation\<close> returns
  a non-empty map, the solver returns an optimal allocation whose slab counts add up to
  the slab counts of the current allocation, and which has exactly one entry for every
  class of the miss ratio curve view and of the current allocation.
\<close>

theorem budget_conservation:
  assumes "queryMrc st classIdToAllocsPerSlabMap (sum_list (map snd currentSlabAllocation))
             = Some classMrcData"
    and "classMrcData \<noteq> []"
  shows "\<exists>mrOld mrNew optimalAllocation reassignmentPlan accessFrequencies.
      solveSlabReallocation std_sort st classIdToAllocsPerSlabMap currentSlabAllocation
        = Some (mrOld, mrNew, optimalAllocation, reassignmentPlan, accessFrequencies)
    \<and> sum_list (map snd optimalAllocation) = sum_list (map snd currentSlabAllocation)
    \<and> distinct (map fst optimalAllocation)
    \<and> fst ` set optimalAllocation = fst ` set classMrcData \<union> fst ` set currentSlabAllocation"
proof -
  let ?M = "sum_list (map snd currentSlabAllocation)"
  from solveSlabReallocation_cases [of st classIdToAllocsPerSlabMap currentSlabAllocation std_sort]
  obtain d where q: "queryMrc st classIdToAllocsPerSlabMap ?M = Some d"
    and dd: "distinct (map fst d)"
    and s: "solveSlabReallocation std_sort st classIdToAllocsPerSlabMap currentSlabAllocation
         = (if d = [] then Some (0, 0, [], [], []) else solve_classes std_sort d currentSlabAllocation ?M)"
    by (elim exE conjE)
  from q assms(1) have d: "d = classMrcData" by simp
  from s assms(2) have s': "solveSlabReallocation std_sort st classIdToAllocsPerSlabMap currentSlabAllocation
         = solve_classes std_sort classMrcData currentSlabAllocation ?M"
    by (simp add: d)
  from dd have dd': "distinct (map fst classMrcData)" by (simp add: d)
  show ?thesis
    using solve_classes_result [OF dd' assms(2), of std_sort currentSlabAllocation ?M]
    unfolding s'
    by (elim exE conjE, intro exI conjI) assumption+
qed


theorem budget_conservation_witness:
  "\<exists>mrOld mrNew optimalAllocation reassignmentPlan accessFrequencies.
      solveSlabReallocation sort_key example_window [(1, 2), (2, 0), (3, 5)] [(1, 1), (2, 1)]
        = Some (mrOld, mrNew, optimalAllocation, reassignmentPlan, accessFrequencies)
    \<and> sum_list (map snd optimalAllocation) = 2
    \<and> distinct (map fst optimalAllocation)
    \<and> fst ` set optimalAllocation = {1, 2}"
proof -
  have M: "sum_list (map snd [(1 :: ClassId, 1), (2, 1 :: nat)]) = 2" by simp
  have q: "queryMrc example_window [(1, 2), (2, 0), (3, 5)]
             (sum_list (map snd [(1 :: ClassId, 1), (2, 1 :: nat)]))
           = Some [(1, [(0, 1), (1, 1 / 2), (2, 1 / 2)], [(1, 1 / 2), (2, 0)], 2)]"
    unfolding M by (rule example_window_mrc)
  have ne: "[(1, [(0, 1), (1, 1 / 2), (2, 1 / 2)], [(1, 1 / 2), (2, 0)], 2)]
              \<noteq> ([] :: (ClassId \<times> class_mrc) list)"
    by simp
  from budget_conservation [OF q ne, of sort_key] show ?thesis
    by (simp add: insert_commute numeral_2_eq_2)
qed

subsection \<open>The access counts are bounded by the capacity\<close>

lemma pass1_count_le:
  "map_of (fst (fold pass1_step es acc)) c = Some n \<Longrightarrow>
   n \<le> subscript 0 (fst acc) c + length es"
proof (induction es arbitrary: acc)
  case Nil
  then show ?case by (simp add: subscript_def)
next
  case (Cons e es)
  obtain k c' where e: "e = (k, c')" by (cases e)
  obtain nb uq where acc: "acc = (nb, uq)" by (cases acc)
  have "subscript 0 (fst (pass1_step e acc)) c \<le> subscript 0 (fst acc) c + 1"
    by (simp add: e acc pass1_step_def subscript_def update_conv')
  moreover from Cons.IH [of "pass1_step e acc"] Cons.prems
  have "n \<le> subscript 0 (fst (pass1_step e acc)) c + length es" by simp
  ultimately show ?case by simp
qed

lemma snapshot_entries_length: "length (snapshot_entries st) \<le> circularBufferMaxLen st"
proof -
  have w: "length (window_entries b s n m) \<le> k" if "n \<le> k" for b s n m k
    unfolding window_entries_def
    using length_takeWhile_le [of _ "[0..<n]"] that
    by (simp del: upt_Suc) (meson diff_zero le_trans length_upt)
  show ?thesis
    unfolding snapshot_entries_def Let_def
    by (auto intro!: w)
qed

lemma class_mrc_entry_freq:
  assumes "class_mrc_entry (calculateWindowStats st) c a B = Some e"
  shows "snd (snd e) \<le> circularBufferMaxLen st"
proof -
  obtain fb lb rb nb mb where stats: "calculateWindowStats st = (fb, lb, rb, nb, mb)"
    by (cases "calculateWindowStats st") auto
  from assms have n: "map_of nb c = Some (snd (snd e))"
    by (auto simp: class_mrc_entry_def stats Let_def split: Option.bind_splits)
  then have ne: "\<not> (currentBufferSize st = 0 \<or> circularBuffer st = [])"
    using stats by (auto simp: calculateWindowStats_def split: if_splits)
  with stats have "window_stats_of (snapshot_entries st) = (fb, lb, rb, nb, mb)"
    by (simp add: calculateWindowStats_def)
  with window_stats_of_proj(1) [of "snapshot_entries st"]
  have "nb = fst (fold pass1_step (snapshot_entries st) ([], []))" by simp
  with n pass1_count_le [of "snapshot_entries st" "([], [])" c "snd (snd e)"]
  have "snd (snd e) \<le> length (snapshot_entries st)"
    by (simp add: subscript_def)
  with snapshot_entries_length [of st] show ?thesis by simp
qed

lemma queryMrc_freqs:
  "\<exists>result. queryMrc st aps B = Some result
      \<and> fst ` set result
           = {c. c \<in> snd ` set (snapshot_entries st) \<and> (\<exists>a. (c, a) \<in> set aps \<and> a \<noteq> 0)}
      \<and> distinct (map fst result)
      \<and> (\<forall>e \<in> snd ` set result. snd (snd e) \<le> circularBufferMaxLen st)"
proof -
  have "\<exists>result. queryMrc st aps B = Some result
      \<and> fst ` set result
           = {c. c \<in> snd ` set (snapshot_entries st) \<and> (\<exists>a. (c, a) \<in> set aps \<and> a \<noteq> 0)}
      \<and> distinct (map fst result)
      \<and> (\<forall>(c, e) \<in> set result. snd (snd e) \<le> circularBufferMaxLen st)"
    by (rule queryMrc_result) (rule class_mrc_entry_freq)
  then obtain result where r: "queryMrc st aps B = Some result"
    and k: "fst ` set result
           = {c. c \<in> snd ` set (snapshot_entries st) \<and> (\<exists>a. (c, a) \<in> set aps \<and> a \<noteq> 0)}"
    and d: "distinct (map fst result)"
    and f: "\<forall>(c, e) \<in> set result. snd (snd e) \<le> circularBufferMaxLen st"
    by (elim exE conjE)
  from f have "\<forall>e \<in> snd ` set result. snd (snd e) \<le> circularBufferMaxLen st" by auto
  with r k d show ?thesis by (intro exI conjI)
qed

section \<open>The reassignment plan and the miss rates\<close>

lemma solveSlabReallocation_plan:
  assumes "solveSlabReallocation std_sort st aps cur = Some (mrOld, mrNew, opt, plan, freqs)"
  shows "plan = zip (std_sort (score freqs cur) (victim_queue opt cur)) (receiver_queue opt cur)
       \<and> distinct (map fst opt)
       \<and> (opt = [] \<or> (sum_list (map snd opt) = sum_list (map snd cur)
                        \<and> fst ` set cur \<subseteq> fst ` set opt))
       \<and> (\<forall>n \<in> snd ` set freqs. n \<le> circularBufferMaxLen st)"
proof -
  let ?M = "sum_list (map snd cur)"
  from solveSlabReallocation_cases [of st aps cur std_sort]
  obtain d where q: "queryMrc st aps ?M = Some d"
    and dd: "distinct (map fst d)"
    and s: "solveSlabReallocation std_sort st aps cur
         = (if d = [] then Some (0, 0, [], [], []) else solve_classes std_sort d cur ?M)"
    by (elim exE conjE)
  from queryMrc_freqs [of st aps ?M] q
  have bound: "\<forall>e \<in> snd ` set d. snd (snd e) \<le> circularBufferMaxLen st"
    by auto
  show ?thesis
  proof (cases "d = []")
    case True
    with s assms have "opt = []" "plan = []" "freqs = []" by simp_all
    then show ?thesis
      by (simp add: victim_queue_def receiver_queue_def)
  next
    case False
    from solve_classes_result [OF dd False, of std_sort cur ?M]
    obtain mrOld' mrNew' opt' freqs' where
      r: "solve_classes std_sort d cur ?M = Some (mrOld', mrNew', opt',
          zip (std_sort (score freqs' cur) (victim_queue opt' cur)) (receiver_queue opt' cur), freqs')"
      and p: "sum_list (map snd opt') = ?M" "distinct (map fst opt')"
        "fst ` set opt' = fst ` set d \<union> fst ` set cur"
      and f: "freqs' = map (\<lambda>c. (c, snd (snd (the (map_of d c))))) (sort (map fst d))"
      by (elim exE conjE)
    from s False assms r have eq: "opt = opt'" "freqs = freqs'"
      "plan = zip (std_sort (score freqs' cur) (victim_queue opt' cur)) (receiver_queue opt' cur)"
      by simp_all
    have "\<forall>n \<in> snd ` set freqs'. n \<le> circularBufferMaxLen st"
    proof
      fix n assume "n \<in> snd ` set freqs'"
      then obtain c where c: "c \<in> fst ` set d" and n: "n = snd (snd (the (map_of d c)))"
        unfolding f by force
      from c obtain e where e: "map_of d c = Some e"
        by (metis map_of_eq_None_iff not_None_eq)
      then have "e \<in> snd ` set d"
        by (metis map_of_SomeD snd_conv image_eqI)
      with bound have "snd (snd e) \<le> circularBufferMaxLen st" by blast
      with n e show "n \<le> circularBufferMaxLen st" by simp
    qed
    with p show ?thesis
      unfolding eq by simp
  qed
qed

lemma sorted_concat_replicate:
  "sorted xs \<Longrightarrow> sorted (concat (map (\<lambda>c. replicate (g c) c) xs))"
proof (induction xs)
  case Nil
  show ?case by simp
next
  case (Cons x xs)
  have "set (concat (map (\<lambda>c. replicate (g c) c) xs)) \<subseteq> set xs" by auto
  with Cons show ?case
    by (auto simp: sorted_append)
qed

lemma receiver_queue_sorted: "sorted (receiver_queue opt cur)"
  unfolding receiver_queue_def by (rule sorted_concat_replicate) simp

lemma sum_list_if_key:
  "distinct xs \<Longrightarrow> k \<in> set xs \<Longrightarrow> g k = 0 \<Longrightarrow>
   sum_list (map (\<lambda>c. if c = k then v else g c) xs)
     = (v :: nat) + sum_list (map g (xs :: ClassId list))"
proof (induction xs)
  case Nil
  then show ?case by simp
next
  case (Cons x xs)
  show ?case
  proof (cases "x = k")
    case True
    with Cons.prems have "k \<notin> set xs" by simp
    then have "map (\<lambda>c. if c = k then v else g c) xs = map g xs" by simp
    then have "sum_list (map (\<lambda>c. if c = k then v else g c) xs) = sum_list (map g xs)"
      by (simp only:)
    with True Cons.prems(3) show ?thesis by simp
  next
    case False
    with Cons show ?thesis by simp
  qed
qed

lemma sum_subscript:
  "distinct (map fst m) \<Longrightarrow> distinct xs \<Longrightarrow> fst ` set m \<subseteq> set xs \<Longrightarrow>
   sum_list (map (subscript 0 m) xs) = sum_list (map snd (m :: (ClassId \<times> nat) list))"
proof (induction m)
  case Nil
  show ?case by (simp add: subscript_def)
next
  case (Cons p m)
  obtain k v where p: "p = (k, v)" by (cases p)
  from Cons.prems have fresh: "k \<notin> fst ` set m" and kin: "k \<in> set xs" by (auto simp: p)
  then have z: "subscript 0 m k = 0"
    by (simp add: subscript_def map_of_eq_None_iff [THEN iffD2])
  have "subscript 0 (p # m) = (\<lambda>c. if c = k then v else subscript 0 m c)"
    by (auto simp: subscript_def p)
  then have "sum_list (map (subscript 0 (p # m)) xs) = v + sum_list (map (subscript 0 m) xs)"
    using sum_list_if_key [of xs k "subscript 0 m" v, OF Cons.prems(2) kin z] by simp
  with Cons show ?case by (simp add: p)
qed

lemma sum_monus_swap:
  "sum_list (map (\<lambda>c. f c - g c) xs) + sum_list (map g xs)
     = sum_list (map (\<lambda>c. g c - f c) xs) + sum_list (map (f :: 'a \<Rightarrow> nat) xs)"
  by (induction xs) auto

lemma queues_same_length:
  assumes "distinct (map fst opt)" and "distinct (map fst cur)"
    and "fst ` set cur \<subseteq> fst ` set opt"
    and "sum_list (map snd opt) = sum_list (map snd cur)"
  shows "length (victim_queue opt cur) = length (receiver_queue opt cur)"
proof -
  let ?xs = "sorted_list_of_set (fst ` set opt)"
  have d: "distinct ?xs" and s: "set ?xs = fst ` set opt" by simp_all
  have o: "sum_list (map (subscript 0 opt) ?xs) = sum_list (map snd opt)"
    by (rule sum_subscript [OF assms(1) d]) (simp add: s)
  have c: "sum_list (map (subscript 0 cur) ?xs) = sum_list (map snd cur)"
    by (rule sum_subscript [OF assms(2) d]) (use assms(3) s in simp)
  have "length (victim_queue opt cur)
          = sum_list (map (\<lambda>c. subscript 0 cur c - subscript 0 opt c) ?xs)"
    by (simp add: victim_queue_def length_concat comp_def)
  moreover have "length (receiver_queue opt cur)
          = sum_list (map (\<lambda>c. subscript 0 opt c - subscript 0 cur c) ?xs)"
    by (simp add: receiver_queue_def length_concat comp_def)
  moreover note sum_monus_swap [of "subscript 0 cur" "subscript 0 opt" ?xs]
  ultimately show ?thesis
    using o c assms(4) by simp
qed

lemma solve_classes_sort:
  assumes "solve_classes sort1 d cur M = Some (mrOld, mrNew, opt, plan, freqs)"
  shows "\<exists>plan'. solve_classes sort2 d cur M = Some (mrOld, mrNew, opt, plan', freqs)"
proof -
  from assms obtain fr ct q where
    f: "accessFrequencies_loop d (sort (map fst d)) [] = Some fr"
       "costTable_loop d (sort (map fst d)) M = Some ct"
       "move_queues
          (fill_missing (allRelevantClassIds_of (sort (map fst d)) cur)
             (reconstruct (snd (dp_tables ct M)) (sort (map fst d)) M))
          cur (allRelevantClassIds_of (sort (map fst d)) cur) ([], []) = Some q"
    unfolding solve_classes_def Let_def by (auto split: Option.bind_splits)
  define oa where "oa = fill_missing (allRelevantClassIds_of (sort (map fst d)) cur)
             (reconstruct (snd (dp_tables ct M)) (sort (map fst d)) M)"
  define A where "A = (if sum_list (map snd fr) > 0
                       then total_misses d cur / real (sum_list (map snd fr)) else 0)"
  define N where "N = (if sum_list (map snd fr) > 0
                       then total_misses d oa / real (sum_list (map snd fr)) else 0)"
  have form: "solve_classes s d cur M = Some (A, N, oa,
      map (\<lambda>i. (s (score fr cur) (fst q) ! i, snd q ! i))
        [0..<min (length (s (score fr cur) (fst q))) (length (snd q))], fr)" for s
    unfolding solve_classes_def Let_def A_def N_def oa_def
    by (simp add: f del: upt_Suc)
  from assms [unfolded form] have "A = mrOld" "N = mrNew" "oa = opt" "fr = freqs"
    by simp_all
  with form [of sort2] show ?thesis by simp
qed

lemma solveSlabReallocation_sort:
  assumes "solveSlabReallocation sort1 st aps cur = Some (mrOld, mrNew, opt, plan, freqs)"
  shows "solveSlabReallocation sort2 st aps cur
           = Some (mrOld, mrNew, opt,
                   zip (sort2 (score freqs cur) (victim_queue opt cur)) (receiver_queue opt cur),
                   freqs)"
proof -
  from solveSlabReallocation_cases [of st aps cur sort1]
  obtain d where e1: "solveSlabReallocation sort1 st aps cur
         = (if d = [] then Some (0, 0, [], [], [])
            else solve_classes sort1 d cur (sum_list (map snd cur)))"
    and q: "queryMrc st aps (sum_list (map snd cur)) = Some d"
    by (elim exE conjE)
  from solveSlabReallocation_cases [of st aps cur sort2] q
  have e2: "solveSlabReallocation sort2 st aps cur
         = (if d = [] then Some (0, 0, [], [], [])
            else solve_classes sort2 d cur (sum_list (map snd cur)))"
    by simp
  have "\<exists>plan'. solveSlabReallocation sort2 st aps cur
           = Some (mrOld, mrNew, opt, plan', freqs)"
  proof (cases "d = []")
    case True
    with assms e1 e2 show ?thesis by simp
  next
    case False
    with assms e1 have "solve_classes sort1 d cur (sum_list (map snd cur))
        = Some (mrOld, mrNew, opt, plan, freqs)" by simp
    from solve_classes_sort [OF this, of sort2] False e2 show ?thesis by simp
  qed
  then obtain plan' where
    r: "solveSlabReallocation sort2 st aps cur = Some (mrOld, mrNew, opt, plan', freqs)" ..
  from solveSlabReallocation_plan [OF r]
  have "plan' = zip (sort2 (score freqs cur) (victim_queue opt cur)) (receiver_queue opt cur)"
    by (rule conjunct1)
  with r show ?thesis by simp
qed

text \<open>
  Claim C10. Whatever order \<open>std::sort\<close> gives the victims of equal score, the \<open>i\<close>-th pair
  of the plan holds the \<open>i\<close>-th victim of the sorted victim queue and the \<open>i\<close>-th element
  of the receiver queue, which lists the class ids of the union in ascending order, each
  repeated consecutively once per slab it gains. The receiver components are therefore
  ascending. With the distinct keys of a \<open>std::map\<close> as current allocation, the plan uses
  the whole receiver queue.
\<close>

theorem receiver_order:
  assumes "solveSlabReallocation std_sort st classIdToAllocsPerSlabMap currentSlabAllocation
             = Some (mrOld, mrNew, optimalAllocation, reassignmentPlan, accessFrequencies)"
    and "std_sort_spec std_sort"
  shows "reassignmentPlan
           = zip (std_sort (score accessFrequencies currentSlabAllocation)
                    (victim_queue optimalAllocation currentSlabAllocation))
               (receiver_queue optimalAllocation currentSlabAllocation)
       \<and> map snd reassignmentPlan
           = take (length reassignmentPlan) (receiver_queue optimalAllocation currentSlabAllocation)
       \<and> sorted (map snd reassignmentPlan)
       \<and> (distinct (map fst currentSlabAllocation) \<longrightarrow>
            map snd reassignmentPlan = receiver_queue optimalAllocation currentSlabAllocation)"
proof -
  let ?V = "std_sort (score accessFrequencies currentSlabAllocation)
              (victim_queue optimalAllocation currentSlabAllocation)"
  let ?R = "receiver_queue optimalAllocation currentSlabAllocation"
  note sp = solveSlabReallocation_plan [OF assms(1)]
  from sp have plan: "reassignmentPlan = zip ?V ?R" by simp
  have ms: "map snd reassignmentPlan = take (length reassignmentPlan) ?R"
    unfolding plan by (simp add: map_snd_zip_take)
  have "sorted (take (length reassignmentPlan) ?R)"
    using receiver_queue_sorted [of optimalAllocation currentSlabAllocation]
    by (rule sorted_wrt_take)
  with ms have so: "sorted (map snd reassignmentPlan)" by simp
  have full: "map snd reassignmentPlan = ?R" if dc: "distinct (map fst currentSlabAllocation)"
  proof (cases "optimalAllocation = []")
    case True
    then have "?R = []" by (simp add: receiver_queue_def)
    with ms show ?thesis by simp
  next
    case False
    with sp have "sum_list (map snd optimalAllocation) = sum_list (map snd currentSlabAllocation)"
      and "fst ` set currentSlabAllocation \<subseteq> fst ` set optimalAllocation"
      and "distinct (map fst optimalAllocation)" by simp_all
    from queues_same_length [OF this(3) dc this(2) this(1)]
    have "length ?V = length ?R" by (simp add: std_sort_length [OF assms(2)])
    then show ?thesis
      unfolding plan by simp
  qed
  from plan ms so full show ?thesis by simp
qed

lemma example_ring_solution:
  "solveSlabReallocation sort_key example_ring [(1, 1), (2, 1), (3, 1)] [(1, 1), (2, 1), (3, 0)]
     = Some (1, 5 / 8, [(3, 2), (2, 0), (1, 0)], [(2, 3), (1, 3)], [(1, 3), (2, 1), (3, 4)])"
  by code_simp

lemma example_mixed_reached:
  "map_sum id
     (feeds (\<lambda>key. key)
        [(10, 1), (11, 1), (10, 1), (11, 1), (20, 2), (20, 2), (30, 3), (31, 3)])
     (new_FootprintMRC 8) = Inr example_mixed"
  by code_simp

lemma example_mixed_solution:
  "solveSlabReallocation sort_key example_mixed [(1, 2), (2, 2), (3, 2)] [(1, 0), (2, 0), (3, 3)]
     = Some (1, 5 / 8, [(3, 0), (2, 1), (1, 2)], [(3, 1), (3, 1), (3, 2)],
             [(1, 4), (2, 2), (3, 2)])"
  by code_simp

lemma example_mixed_receivers:
  "receiver_queue [(3, 0), (2, 1), (1, 2)] [(1, 0), (2, 0), (3, 3)] = [1, 1, 2]"
  by code_simp

theorem receiver_order_witness:
  "std_sort_spec sort_key
   \<and> solveSlabReallocation sort_key example_mixed [(1, 2), (2, 2), (3, 2)] [(1, 0), (2, 0), (3, 3)]
       = Some (1, 5 / 8, [(3, 0), (2, 1), (1, 2)], [(3, 1), (3, 1), (3, 2)],
               [(1, 4), (2, 2), (3, 2)])
   \<and> receiver_queue [(3, 0), (2, 1), (1, 2)] [(1, 0), (2, 0), (3, 3)] = [1, 1, 2]
   \<and> map snd [(3 :: ClassId, 1 :: ClassId), (3, 1), (3, 2)]
       = receiver_queue [(3, 0), (2, 1), (1, 2)] [(1, 0), (2, 0), (3, 3)]
   \<and> sorted (map snd [(3 :: ClassId, 1 :: ClassId), (3, 1), (3, 2)])
   \<and> [(3 :: ClassId, 1 :: ClassId), (3, 1), (3, 2)]
       = zip (sort_key (score [(1, 4), (2, 2), (3, 2)] [(1, 0), (2, 0), (3, 3)])
                (victim_queue [(3, 0), (2, 1), (1, 2)] [(1, 0), (2, 0), (3, 3)]))
           (receiver_queue [(3, 0), (2, 1), (1, 2)] [(1, 0), (2, 0), (3, 3)])"
proof -
  note t = receiver_order [OF example_mixed_solution std_sort_spec_sort_key]
  have d: "distinct (map fst [(1 :: ClassId, 0 :: nat), (2, 0), (3, 3)])" by simp
  note z = t [THEN conjunct1]
  note s = t [THEN conjunct2, THEN conjunct2, THEN conjunct1]
  note f = t [THEN conjunct2, THEN conjunct2, THEN conjunct2, THEN mp, OF d]
  show ?thesis
    by (intro conjI)
      (rule std_sort_spec_sort_key, rule example_mixed_solution, rule example_mixed_receivers,
       rule f, rule s, rule z)
qed


subsection \<open>The order of the victims\<close>

lemma DBL_MAX_big: "2 ^ 64 < DBL_MAX"
proof -
  have "(2::real) ^ 64 < 2 ^ 1023"
    by (rule power_strict_increasing) simp_all
  moreover have "(1::real) \<le> 2 - 1 / 2 ^ 52" by simp
  then have "(1::real) * 2 ^ 1023 \<le> (2 - 1 / 2 ^ 52) * 2 ^ 1023"
    by (rule mult_right_mono) simp
  ultimately show ?thesis
    unfolding DBL_MAX_def by simp
qed

lemma score_pressure:
  assumes bound: "\<forall>n \<in> snd ` set freqs. real n < DBL_MAX"
    and le: "score freqs cur a \<le> score freqs cur b"
  shows "pressure_le (pressure freqs cur a) (pressure freqs cur b)"
proof (cases "pressure freqs cur b")
  case None
  then show ?thesis by (simp add: pressure_le_def)
next
  case (Some y)
  then obtain n k where n: "map_of freqs b = Some n" and k: "map_of cur b = Some k"
    and k0: "k \<noteq> 0" and y: "y = real n / real k"
    by (auto simp: pressure_def split: option.splits if_splits)
  have sb: "score freqs cur b = real n / real k"
    using n k k0 by (simp add: score_def)
  from n have "n \<in> snd ` set freqs"
    by (metis map_of_SomeD snd_conv image_eqI)
  with bound have "real n < DBL_MAX" by blast
  moreover have "real n / real k \<le> real n"
    using k0 by (simp add: divide_le_eq mult_le_cancel_left1)
  ultimately have fin: "score freqs cur b < DBL_MAX"
    unfolding sb by simp
  show ?thesis
  proof (cases "pressure freqs cur a")
    case None
    then have "score freqs cur a = DBL_MAX"
      by (auto simp: pressure_def score_def split: option.splits if_splits)
    with le fin show ?thesis by simp
  next
    case (Some x)
    then have "score freqs cur a = x"
      by (auto simp: pressure_def score_def split: option.splits if_splits)
    with le sb y Some \<open>pressure freqs cur b = Some y\<close> show ?thesis
      by (simp add: pressure_le_def)
  qed
qed

lemma pressure_less_not_le: "pressure_less p q \<Longrightarrow> \<not> pressure_le q p"
  by (auto simp: pressure_less_def pressure_le_def split: option.splits)

text \<open>
  Claim C8. With a ring capacity in the range of \<open>size_t\<close>, and whatever order \<open>std::sort\<close>
  gives the victims of equal score, the victims of every plan the
  solver returns are in ascending order of access-per-slab pressure, a class without
  access count, without current allocation or with a current allocation of \<open>0\<close> counting
  as infinite; so all moves of a victim of strictly lower pressure come before all
  moves of a victim of strictly higher pressure.
\<close>

theorem victim_order:
  assumes "solveSlabReallocation std_sort st classIdToAllocsPerSlabMap currentSlabAllocation
             = Some (mrOld, mrNew, optimalAllocation, reassignmentPlan, accessFrequencies)"
    and "circularBufferMaxLen st < 2 ^ 64"
    and "std_sort_spec std_sort"
  shows "sorted_wrt (\<lambda>a b. pressure_le (pressure accessFrequencies currentSlabAllocation a)
                                (pressure accessFrequencies currentSlabAllocation b))
           (map fst reassignmentPlan)
       \<and> (\<forall>i j. i < length reassignmentPlan \<and> j < length reassignmentPlan
              \<and> pressure_less
                    (pressure accessFrequencies currentSlabAllocation (fst (reassignmentPlan ! i)))
                    (pressure accessFrequencies currentSlabAllocation (fst (reassignmentPlan ! j)))
            \<longrightarrow> i < j)"
proof -
  let ?sc = "score accessFrequencies currentSlabAllocation"
  let ?pr = "pressure accessFrequencies currentSlabAllocation"
  let ?V = "std_sort ?sc (victim_queue optimalAllocation currentSlabAllocation)"
  let ?R = "receiver_queue optimalAllocation currentSlabAllocation"
  note sp = solveSlabReallocation_plan [OF assms(1)]
  from sp have plan: "reassignmentPlan = zip ?V ?R" by simp
  have bound: "\<forall>n \<in> snd ` set accessFrequencies. real n < DBL_MAX"
  proof
    fix n assume "n \<in> snd ` set accessFrequencies"
    with sp have "n \<le> circularBufferMaxLen st" by blast
    with assms(2) have "n < 2 ^ 64" by simp
    then have "real n < 2 ^ 64"
      by (metis of_nat_less_iff of_nat_numeral of_nat_power)
    with DBL_MAX_big show "real n < DBL_MAX" by simp
  qed
  have "map fst reassignmentPlan = take (length reassignmentPlan) ?V"
    unfolding plan by (simp add: map_fst_zip_take)
  moreover have "sorted (map ?sc ?V)" by (rule std_sort_sorted [OF assms(3)])
  then have "sorted (take (length reassignmentPlan) (map ?sc ?V))"
    by (rule sorted_wrt_take)
  ultimately have "sorted (map ?sc (map fst reassignmentPlan))"
    by (simp add: take_map)
  then have "sorted_wrt (\<lambda>a b. ?sc a \<le> ?sc b) (map fst reassignmentPlan)"
    by (simp only: sorted_map)
  then have so: "sorted_wrt (\<lambda>a b. pressure_le (?pr a) (?pr b)) (map fst reassignmentPlan)"
    by (rule sorted_wrt_mono_rel [rotated]) (rule score_pressure [OF bound])
  have "i < j" if ij: "i < length reassignmentPlan" "j < length reassignmentPlan"
    and less: "pressure_less (?pr (fst (reassignmentPlan ! i))) (?pr (fst (reassignmentPlan ! j)))"
    for i j
  proof (rule ccontr)
    assume "\<not> i < j"
    then consider "j = i" | "j < i" by linarith
    then show False
    proof cases
      case 1
      with less show False
        by (auto simp: pressure_less_def split: option.splits)
    next
      case 2
      from ij have li: "i < length (map fst reassignmentPlan)" by simp
      from sorted_wrt_nth_less [OF so 2 li]
      have "pressure_le (?pr (map fst reassignmentPlan ! j))
                         (?pr (map fst reassignmentPlan ! i))" .
      with ij have "pressure_le (?pr (fst (reassignmentPlan ! j))) (?pr (fst (reassignmentPlan ! i)))"
        by simp
      with pressure_less_not_le [OF less] show False by simp
    qed
  qed
  with so show ?thesis by blast
qed


theorem victim_order_witness:
  "circularBufferMaxLen example_ring < 2 ^ 64
   \<and> std_sort_spec sort_key
   \<and> solveSlabReallocation sort_key example_ring [(1, 1), (2, 1), (3, 1)] [(1, 1), (2, 1), (3, 0)]
       = Some (1, 5 / 8, [(3, 2), (2, 0), (1, 0)], [(2, 3), (1, 3)], [(1, 3), (2, 1), (3, 4)])
   \<and> sorted_wrt (\<lambda>a b. pressure_le (pressure [(1, 3), (2, 1), (3, 4)] [(1, 1), (2, 1), (3, 0)] a)
                             (pressure [(1, 3), (2, 1), (3, 4)] [(1, 1), (2, 1), (3, 0)] b))
       (map fst [(2 :: ClassId, 3 :: ClassId), (1, 3)])
   \<and> pressure_less (pressure [(1, 3), (2, 1), (3, 4)] [(1, 1), (2, 1), (3, 0)] 2)
       (pressure [(1, 3), (2, 1), (3, 4)] [(1, 1), (2, 1), (3, 0)] 1)
   \<and> pressure [(1, 3), (2, 1), (3, 4)] [(1, 1), (2, 1), (3, 0)] 3 = None"
proof -
  have cap: "circularBufferMaxLen example_ring < 2 ^ 64"
    by (simp add: example_ring_def)
  note t = victim_order [OF example_ring_solution cap std_sort_spec_sort_key]
  have l: "pressure_less (pressure [(1, 3), (2, 1), (3, 4)] [(1, 1), (2, 1), (3, 0)] 2)
       (pressure [(1, 3), (2, 1), (3, 4)] [(1, 1), (2, 1), (3, 0)] 1)"
    by (simp add: pressure_def pressure_less_def)
  have n: "pressure [(1, 3), (2, 1), (3, 4)] [(1, 1), (2, 1), (3, 0)] 3 = None"
    by (simp add: pressure_def)
  show ?thesis
    by (intro conjI)
      (rule cap, rule std_sort_spec_sort_key, rule example_ring_solution, rule t [THEN conjunct1],
       rule l, rule n)
qed


subsection \<open>The two miss rates\<close>

lemma example_single_solution:
  "solveSlabReallocation sort_key example_single [(1, 1)] [(2, 1)]
     = Some (0, 1, [(1, 1), (2, 0)], [(2, 1)], [(1, 1)])"
  by code_simp

lemma example_single_reached:
  "map_sum id (feeds (\<lambda>key. key) [(5, 1)]) (new_FootprintMRC 4) = Inr example_single"
  by code_simp

text \<open>
  Claim C2 (the miss rate of the chosen allocation never exceeds the miss rate of the
  current one) does not hold for the code. The loop that adds up \<open>totalMissesOld\<close> runs
  over the entries of \<open>currentSlabAllocation\<close>, so a class that is in the window but has
  no entry in \<open>currentSlabAllocation\<close> adds nothing to \<open>mrOld\<close>, although it has no
  slab and every access to it misses; the loop for \<open>totalMissesNew\<close> runs over
  \<open>optimalAllocation\<close>, which has been completed to all classes, and counts it. Here
  class 1 has one access and no entry in the current allocation \<open>{2: 1}\<close>: with any
  sorting routine, the solver reports \<open>mrOld = 0\<close> and \<open>mrNew = 1\<close>. (\<open>dp_never_worse\<close>, at
  the end of this theory, proves the inequality for the inputs in which each class of
  the window has an entry in \<open>currentSlabAllocation\<close> and no cache size overflows
  \<open>size_t\<close>.)
\<close>

theorem miss_rate_missing_class:
  assumes "std_sort_spec std_sort"
  shows "solveSlabReallocation std_sort example_single [(1, 1)] [(2, 1)]
           = Some (0, 1, [(1, 1), (2, 0)], [(2, 1)], [(1, 1)])"
proof -
  have v: "victim_queue [(1 :: ClassId, 1 :: nat), (2, 0)] [(2, 1)] = [2]"
    by code_simp
  have r: "receiver_queue [(1 :: ClassId, 1 :: nat), (2, 0)] [(2, 1)] = [1]"
    by code_simp
  show ?thesis
    unfolding solveSlabReallocation_sort [OF example_single_solution, of std_sort] v r
      std_sort_single [OF assms]
    by simp
qed

theorem miss_rate_missing_class_witness:
  "std_sort_spec sort_key
   \<and> solveSlabReallocation sort_key example_single [(1, 1)] [(2, 1)]
       = Some (0, 1, [(1, 1), (2, 0)], [(2, 1)], [(1, 1)])"
  using miss_rate_missing_class [OF std_sort_spec_sort_key] std_sort_spec_sort_key
  by (intro conjI)

section \<open>The footprint values\<close>

subsection \<open>The suffix sums of the reuse histogram\<close>









subsection \<open>The two pointers of the main loop\<close>






subsection \<open>The main loop\<close>




subsection \<open>The shape of the footprint function\<close>





section \<open>The statistics of one class\<close>


subsection \<open>Pass 1\<close>




subsection \<open>Pass 2\<close>









subsection \<open>The counting sort\<close>










subsection \<open>The statistics handed to \<open>calculateFpValues\<close>\<close>




section \<open>The footprint of a class of the window\<close>





lemma example_ring_entries:
  "snapshot_entries example_ring
     = [(10, 1), (11, 1), (12, 1), (20, 2), (30, 3), (30, 3), (30, 3), (30, 3)]"
  by code_simp


section \<open>The optimality of the dynamic program\<close>

subsection \<open>One cell\<close>

lemma dp_cell_relax:
  "dp_cell Fprev costRow M j = fold (relax Fprev costRow j) [0..<min j M + 1] (None, 0)"
proof -
  have "(\<lambda>k (Fij, Bij).
             case Fprev ! (j - k) of
               None \<Rightarrow> (Fij, Bij)
             | Some FprevCost \<Rightarrow>
                 let currentClassCost = costRow ! k;
                     tempCost = FprevCost + currentClassCost
                 in if cost_lt tempCost Fij then (Some tempCost, k) else (Fij, Bij))
        = relax Fprev costRow j"
    by (auto simp: fun_eq_iff relax_def Let_def split: option.splits)
  then show ?thesis unfolding dp_cell_def by simp
qed

lemma relax_fold_lower:
  "fold (relax P C j) ks (f, b) = (f', b') \<Longrightarrow>
   (\<forall>v. f = Some v \<longrightarrow> (\<exists>v'. f' = Some v' \<and> v' \<le> v))
   \<and> (\<forall>k \<in> set ks. \<forall>u. P ! (j - k) = Some u \<longrightarrow> (\<exists>v'. f' = Some v' \<and> v' \<le> u + C ! k))"
proof (induction ks arbitrary: f b)
  case Nil
  then show ?case by simp
next
  case (Cons k ks)
  obtain f1 b1 where s: "relax P C j k (f, b) = (f1, b1)" by (cases "relax P C j k (f, b)")
  have A: "\<forall>v. f = Some v \<longrightarrow> (\<exists>v1. f1 = Some v1 \<and> v1 \<le> v)"
    using s by (auto simp: relax_def cost_lt_def split: option.splits if_splits)
  have B: "\<forall>u. P ! (j - k) = Some u \<longrightarrow> (\<exists>v1. f1 = Some v1 \<and> v1 \<le> u + C ! k)"
    using s by (auto simp: relax_def cost_lt_def split: option.splits if_splits)
  from Cons.prems have "fold (relax P C j) ks (f1, b1) = (f', b')" by (simp add: s)
  from Cons.IH [OF this]
  have I1: "\<forall>v. f1 = Some v \<longrightarrow> (\<exists>v'. f' = Some v' \<and> v' \<le> v)"
    and I2: "\<forall>k \<in> set ks. \<forall>u. P ! (j - k) = Some u \<longrightarrow> (\<exists>v'. f' = Some v' \<and> v' \<le> u + C ! k)"
    by blast+
  have "\<forall>v. f = Some v \<longrightarrow> (\<exists>v'. f' = Some v' \<and> v' \<le> v)"
  proof (intro allI impI)
    fix v assume "f = Some v"
    with A obtain v1 where "f1 = Some v1" "v1 \<le> v" by blast
    moreover with I1 obtain v' where "f' = Some v'" "v' \<le> v1" by blast
    ultimately show "\<exists>v'. f' = Some v' \<and> v' \<le> v" by auto
  qed
  moreover have "\<forall>u. P ! (j - k) = Some u \<longrightarrow> (\<exists>v'. f' = Some v' \<and> v' \<le> u + C ! k)"
  proof (intro allI impI)
    fix u assume "P ! (j - k) = Some u"
    with B obtain v1 where "f1 = Some v1" "v1 \<le> u + C ! k" by blast
    moreover with I1 obtain v' where "f' = Some v'" "v' \<le> v1" by blast
    ultimately show "\<exists>v'. f' = Some v' \<and> v' \<le> u + C ! k" by auto
  qed
  ultimately show ?case using I2 by simp
qed

lemma relax_fold_attained:
  "fold (relax P C j) ks (f, b) = (f', b') \<Longrightarrow>
   (f' = f \<and> b' = b) \<or> (b' \<in> set ks \<and> (\<exists>u. P ! (j - b') = Some u \<and> f' = Some (u + C ! b')))"
proof (induction ks arbitrary: f b)
  case Nil
  then show ?case by simp
next
  case (Cons k ks)
  obtain f1 b1 where s: "relax P C j k (f, b) = (f1, b1)" by (cases "relax P C j k (f, b)")
  have A: "(f1 = f \<and> b1 = b) \<or> (b1 = k \<and> (\<exists>u. P ! (j - k) = Some u \<and> f1 = Some (u + C ! k)))"
    using s by (auto simp: relax_def split: option.splits if_splits)
  from Cons.prems have "fold (relax P C j) ks (f1, b1) = (f', b')" by (simp add: s)
  from Cons.IH [OF this] A show ?case by auto
qed

lemma dp_cell_lower:
  assumes "dp_cell P C M j = (f', b')" and "k \<le> j" and "k \<le> M" and "P ! (j - k) = Some u"
  shows "\<exists>v'. f' = Some v' \<and> v' \<le> u + C ! k"
proof -
  from assms(2,3) have "k \<in> set [0..<min j M + 1]" by (simp del: upt_Suc)
  with relax_fold_lower [OF assms(1) [unfolded dp_cell_relax]] assms(4) show ?thesis
    by blast
qed

lemma dp_cell_attained:
  assumes "dp_cell P C M j = (Some v, b')"
  shows "b' \<le> j \<and> b' \<le> M \<and> (\<exists>u. P ! (j - b') = Some u \<and> v = u + C ! b')"
proof -
  from relax_fold_attained [OF assms [unfolded dp_cell_relax]]
  have "b' \<in> set [0..<min j M + 1] \<and> (\<exists>u. P ! (j - b') = Some u \<and> Some v = Some (u + C ! b'))"
    by simp
  then show ?thesis by (auto simp del: upt_Suc)
qed

subsection \<open>The tables\<close>

lemma dp_fold_ok:
  fixes ct :: "real list list" and M i :: nat
  assumes "i \<le> length ct"
  defines "FB \<equiv> fold (dp_step ct M) [1..<i + 1]
       ((Some 0 # replicate M None) # replicate (length ct) (replicate (M + 1) None),
        replicate (length ct + 1) (replicate (M + 1) 0))"
  shows "length (fst FB) = length ct + 1 \<and> length (snd FB) = length ct + 1
       \<and> fst FB ! 0 = Some 0 # replicate M None
       \<and> (\<forall>r j. 1 \<le> r \<and> r \<le> i \<and> j \<le> M \<longrightarrow>
             dp_cell (fst FB ! (r - 1)) (ct ! (r - 1)) M j = (fst FB ! r ! j, snd FB ! r ! j))"
  using assms(1) unfolding FB_def
proof (induction i)
  case 0
  show ?case by simp
next
  case (Suc i)
  define FB0 where "FB0 = fold (dp_step ct M) [1..<i + 1]
       ((Some 0 # replicate M None) # replicate (length ct) (replicate (M + 1) None),
        replicate (length ct + 1) (replicate (M + 1) (0::nat)))"
  obtain F B where FB0: "FB0 = (F, B)" by (cases FB0)
  from Suc.prems have i: "i \<le> length ct" and si: "Suc i < length ct + 1" by simp_all
  from Suc.IH [OF i, folded FB0_def, unfolded FB0]
  have lF: "length F = length ct + 1" and lB: "length B = length ct + 1"
    and r0: "F ! 0 = Some 0 # replicate M None"
    and rows: "\<forall>r j. 1 \<le> r \<and> r \<le> i \<and> j \<le> M \<longrightarrow>
             dp_cell (F ! (r - 1)) (ct ! (r - 1)) M j = (F ! r ! j, B ! r ! j)"
    by simp_all
  define cells where "cells = map (dp_cell (F ! i) (ct ! i) M) [0..<M + 1]"
  have idx: "[1..<Suc i + 1] = [1..<i + 1] @ [Suc i]" by simp
  have step: "fold (dp_step ct M) [1..<Suc i + 1]
       ((Some 0 # replicate M None) # replicate (length ct) (replicate (M + 1) None),
        replicate (length ct + 1) (replicate (M + 1) 0))
      = (F[Suc i := map fst cells], B[Suc i := map snd cells])"
    unfolding idx fold_append comp_def FB0_def [symmetric] FB0
    by (simp add: dp_step_def Let_def cells_def del: upt_Suc)
  have c: "cells ! j = dp_cell (F ! i) (ct ! i) M j" if "j \<le> M" for j
    using that unfolding cells_def by (simp del: upt_Suc)
  have lc: "length cells = M + 1" by (simp add: cells_def del: upt_Suc)
  have new: "dp_cell (F[Suc i := map fst cells] ! (r - 1)) (ct ! (r - 1)) M j
        = (F[Suc i := map fst cells] ! r ! j, B[Suc i := map snd cells] ! r ! j)"
    if r: "1 \<le> r" "r \<le> Suc i" and j: "j \<le> M" for r j
  proof (cases "r = Suc i")
    case True
    with si lF lB lc j show ?thesis by (simp add: c prod_eq_iff)
  next
    case False
    with r have "r \<le> i" "r - 1 \<noteq> Suc i" by simp_all
    with rows r j False show ?thesis by simp
  qed
  from new have new': "\<forall>r j. 1 \<le> r \<and> r \<le> Suc i \<and> j \<le> M \<longrightarrow>
      dp_cell (F[Suc i := map fst cells] ! (r - 1)) (ct ! (r - 1)) M j
        = (F[Suc i := map fst cells] ! r ! j, B[Suc i := map snd cells] ! r ! j)"
    by blast
  show ?case
    unfolding step fst_conv snd_conv
    by (intro conjI) (simp add: lF, simp add: lB, simp add: r0, rule new')
qed

lemma dp_tables_ok: "dp_ok ct M (fst (dp_tables ct M)) (snd (dp_tables ct M))"
  unfolding dp_ok_def dp_tables_def
  using dp_fold_ok [of "length ct" ct M] by simp

lemma dp_lower:
  assumes ok: "dp_ok ct M F B"
  shows "length ks = i \<Longrightarrow> i \<le> length ct \<Longrightarrow> sum_list ks \<le> M \<Longrightarrow>
         \<exists>v. F ! i ! sum_list ks = Some v \<and> v \<le> (\<Sum>t < i. ct ! t ! (ks ! t))"
proof (induction i arbitrary: ks)
  case 0
  from ok have "F ! 0 = Some 0 # replicate M None" by (simp add: dp_ok_def)
  with 0 show ?case by simp
next
  case (Suc i)
  from Suc.prems(1) obtain ks' k where ks: "ks = ks' @ [k]" and l: "length ks' = i"
    by (auto simp: length_Suc_conv_rev)
  from Suc.prems(3) have s': "sum_list ks' \<le> M" and kj: "k \<le> sum_list ks" and kM: "k \<le> M"
    by (simp_all add: ks)
  from Suc.prems(2) have i: "i \<le> length ct" by simp
  from Suc.IH [OF l i s'] obtain u where
    u: "F ! i ! sum_list ks' = Some u" and ub: "u \<le> (\<Sum>t < i. ct ! t ! (ks' ! t))"
    by blast
  from ok Suc.prems(2,3)
  have cell: "dp_cell (F ! i) (ct ! i) M (sum_list ks)
        = (F ! Suc i ! sum_list ks, B ! Suc i ! sum_list ks)"
    unfolding dp_ok_def by (metis diff_Suc_1 le_add1 plus_1_eq_Suc)
  have "F ! i ! (sum_list ks - k) = Some u" using u by (simp add: ks)
  from dp_cell_lower [OF cell kj kM this] obtain v' where
    v': "F ! Suc i ! sum_list ks = Some v'" and vb: "v' \<le> u + ct ! i ! k"
    by blast
  have "(\<Sum>t < i. ct ! t ! (ks ! t)) = (\<Sum>t < i. ct ! t ! (ks' ! t))"
    by (rule sum.cong) (simp_all add: ks nth_append l)
  then have "(\<Sum>t < Suc i. ct ! t ! (ks ! t)) = (\<Sum>t < i. ct ! t ! (ks' ! t)) + ct ! i ! k"
    by (simp add: ks nth_append l)
  with v' vb ub show ?case by simp
qed


subsection \<open>The misses of an allocation\<close>

lemma total_misses_fold:
  "fold (\<lambda>(classId, slabs) totalMisses.
             case map_of d classId of
               Some entry \<Rightarrow>
                 let missRatio = getMissRatio (fst entry) slabs
                 in totalMisses + real (snd (snd entry)) * missRatio
             | None \<Rightarrow> totalMisses + 0) al acc
     = acc + sum_list (map (class_misses d) al)"
  by (induction al arbitrary: acc)
    (auto simp: class_misses_def Let_def split: option.splits)

lemma total_misses_sum: "total_misses d al = sum_list (map (class_misses d) al)"
  unfolding total_misses_def total_misses_fold by simp

lemma fill_missing_misses:
  "(\<forall>c \<in> set cs. c \<notin> fst ` set opt \<longrightarrow> map_of d c = None) \<Longrightarrow>
   total_misses d (fill_missing cs opt) = total_misses d opt"
proof (induction cs arbitrary: opt)
  case Nil
  show ?case by (simp add: fill_missing_def)
next
  case (Cons c cs)
  show ?case
  proof (cases "map_of opt c")
    case None
    then have fresh: "c \<notin> fst ` set opt" by (simp add: map_of_eq_None_iff)
    have f: "fill_missing (c # cs) opt = fill_missing cs (opt @ [(c, 0)])"
      using None update_fresh [OF fresh] by (simp add: fill_missing_def)
    from Cons.prems fresh have n: "map_of d c = None" by simp
    from Cons.prems
    have "\<forall>c' \<in> set cs. c' \<notin> fst ` set (opt @ [(c, 0)]) \<longrightarrow> map_of d c' = None"
      by auto
    from Cons.IH [OF this] show ?thesis
      unfolding f by (simp add: total_misses_sum class_misses_def n)
  next
    case (Some v)
    then have f: "fill_missing (c # cs) opt = fill_missing cs opt"
      by (simp add: fill_missing_def)
    from Cons.prems have "\<forall>c' \<in> set cs. c' \<notin> fst ` set opt \<longrightarrow> map_of d c' = None"
      by simp
    from Cons.IH [OF this] show ?thesis unfolding f .
  qed
qed

lemma reconstruct_cost:
  assumes ok: "dp_ok ct M F B" and dist: "distinct classIds"
    and len: "length classIds = length ct"
    and link: "\<forall>t < length ct. \<forall>k \<le> M. g (classIds ! t, k) = ct ! t ! k"
  shows "i \<le> length ct \<Longrightarrow> rem \<le> M \<Longrightarrow> F ! i ! rem = Some v \<Longrightarrow>
         (\<forall>t < i. classIds ! t \<notin> fst ` set opt) \<Longrightarrow>
         sum_list (map g (fst (fold (reconstruct_step B classIds) (rev [1..<i + 1]) (opt, rem))))
           = sum_list (map g opt) + (v :: real)"
proof (induction i arbitrary: opt rem v)
  case 0
  from ok have "F ! 0 = Some 0 # replicate M None" by (simp add: dp_ok_def)
  with 0(2,3) have "v = 0" by (cases rem) simp_all
  then show ?case by simp
next
  case (Suc i)
  define b where "b = B ! Suc i ! rem"
  from Suc.prems(1) have i: "i \<le> length ct" and il: "i < length ct" by simp_all
  from ok Suc.prems(1,2)
  have "dp_cell (F ! i) (ct ! i) M rem = (F ! Suc i ! rem, B ! Suc i ! rem)"
    unfolding dp_ok_def by (metis diff_Suc_1 le_add1 plus_1_eq_Suc)
  then have cell: "dp_cell (F ! i) (ct ! i) M rem = (Some v, b)"
    using Suc.prems(3) by (simp add: b_def)
  from dp_cell_attained [OF cell] obtain u where
    b: "b \<le> rem" "b \<le> M" and u: "F ! i ! (rem - b) = Some u" and v: "v = u + ct ! i ! b"
    by blast
  from Suc.prems(4) have fresh: "classIds ! i \<notin> fst ` set opt" by simp
  have idx: "rev [1..<Suc i + 1] = Suc i # rev [1..<i + 1]" by simp
  have step: "reconstruct_step B classIds (Suc i) (opt, rem)
        = (opt @ [(classIds ! i, b)], rem - b)"
    using update_fresh [OF fresh] by (simp add: reconstruct_step_def Let_def b_def)
  have fr: "\<forall>t < i. classIds ! t \<notin> fst ` set (opt @ [(classIds ! i, b)])"
  proof (intro allI impI)
    fix t assume t: "t < i"
    with Suc.prems(4) have "classIds ! t \<notin> fst ` set opt" by simp
    moreover from t il len dist have "classIds ! t \<noteq> classIds ! i"
      by (simp add: nth_eq_iff_index_eq)
    ultimately show "classIds ! t \<notin> fst ` set (opt @ [(classIds ! i, b)])" by simp
  qed
  from b(1) Suc.prems(2) have rb: "rem - b \<le> M" by simp
  from link il b(2) have "g (classIds ! i, b) = ct ! i ! b" by simp
  with Suc.IH [OF i rb u fr] show ?case
    unfolding idx fold_Cons comp_def step by (simp add: v)
qed

lemma alist_sum_restrict:
  fixes g :: "'k \<times> 'v \<Rightarrow> 'a :: comm_monoid_add"
  assumes dm: "distinct (map fst m)" and dc: "distinct cs" and sub: "set cs \<subseteq> fst ` set m"
    and zero: "\<forall>p \<in> set m. fst p \<notin> set cs \<longrightarrow> g p = 0"
  shows "sum_list (map g m) = sum_list (map (\<lambda>c. g (c, the (map_of m c))) cs)"
proof -
  define S where "S = {p \<in> set m. fst p \<in> set cs}"
  from dm have "distinct m" by (simp add: distinct_map)
  then have "sum_list (map g m) = sum g (set m)"
    by (rule sum_list_distinct_conv_sum_set)
  also have "\<dots> = sum g S"
    by (rule sum.mono_neutral_right) (use zero in \<open>auto simp: S_def\<close>)
  also have "\<dots> = sum (\<lambda>c. g (c, the (map_of m c))) (set cs)"
  proof (rule sum.reindex_bij_witness [of S "\<lambda>c. (c, the (map_of m c))" fst])
    fix p assume "p \<in> S"
    then have p: "p \<in> set m" "fst p \<in> set cs" by (simp_all add: S_def)
    with dm have "map_of m (fst p) = Some (snd p)" by (cases p) simp
    then show "(fst p, the (map_of m (fst p))) = p" by simp
    from p show "fst p \<in> set cs" by simp
    show "g (fst p, the (map_of m (fst p))) = g p"
      using \<open>(fst p, the (map_of m (fst p))) = p\<close> by simp
  next
    fix c assume c: "c \<in> set cs"
    show "fst (c, the (map_of m c)) = c" by simp
    from c sub obtain v where "map_of m c = Some v"
      using map_of_in_keys [of c m] by auto
    then have "(c, the (map_of m c)) \<in> set m" by (simp add: map_of_SomeD)
    with c show "(c, the (map_of m c)) \<in> S" by (simp add: S_def)
  qed
  also have "\<dots> = sum_list (map (\<lambda>c. g (c, the (map_of m c))) cs)"
    using dc by (simp add: sum_list_distinct_conv_sum_set)
  finally show ?thesis .
qed

lemma cost_row_nth:
  "k \<le> M \<Longrightarrow> cost_row e M ! k = real (snd (snd e)) * getMissRatio (fst e) k"
  unfolding cost_row_def by (simp add: Let_def del: upt_Suc)

lemma curve_getMissRatio:
  assumes "curve_entry aps M c e"
  shows "\<exists>h fp a. a \<noteq> 0 \<and> (c, a) \<in> set aps
           \<and> (\<forall>s \<le> M. getMissRatio (fst e) s = missRatioAt (snd (snd e)) h fp a s)"
proof -
  from assms obtain h fp a where a: "a \<noteq> 0" and ca: "(c, a) \<in> set aps"
    and pts: "fst e = map (\<lambda>s. (s, missRatioAt (snd (snd e)) h fp a s)) [0..<M + 1]"
    unfolding curve_entry_def by blast
  have "getMissRatio (fst e) s = missRatioAt (snd (snd e)) h fp a s" if "s \<le> M" for s
  proof (cases "s = 0")
    case True
    then show ?thesis by (simp add: getMissRatio_def missRatioAt_zero)
  next
    case False
    from that have "map_of (fst e) s = Some (missRatioAt (snd (snd e)) h fp a s)"
      unfolding pts map_of_keyed by (simp del: upt_Suc)
    with False show ?thesis by (simp add: getMissRatio_def)
  qed
  with a ca show ?thesis by blast
qed

lemma cost_row_antimono:
  assumes "curve_entry aps M c e" and "s \<le> t" and "t \<le> M"
    and small: "\<forall>a \<in> snd ` set aps. M * a < 2 ^ 64"
  shows "cost_row e M ! t \<le> cost_row e M ! s"
proof -
  from curve_getMissRatio [OF assms(1)] obtain h fp a where a: "a \<noteq> 0"
    and ca: "(c, a) \<in> set aps"
    and g: "\<forall>s \<le> M. getMissRatio (fst e) s = missRatioAt (snd (snd e)) h fp a s"
    by blast
  from ca have "a \<in> snd ` set aps" by force
  with small have Ma: "M * a < 2 ^ 64" by (rule bspec)
  from assms(3) have "t * a \<le> M * a" by simp
  from this Ma have ta: "t * a < 2 ^ 64" by (rule le_less_trans)
  from assms(2,3) have "s \<le> M" by simp
  with g assms(3) have "getMissRatio (fst e) t \<le> getMissRatio (fst e) s"
    using missRatioAt_antimono [OF a assms(2) ta] by simp
  then show ?thesis
    using assms(3) \<open>s \<le> M\<close> by (simp add: cost_row_nth mult_left_mono)
qed

subsection \<open>The two miss rates of the solver\<close>

lemma solve_classes_rates:
  fixes d :: "(ClassId \<times> class_mrc) list" and cur :: "(ClassId \<times> nat) list" and M :: nat
  assumes d: "distinct (map fst d)" and ne: "d \<noteq> []"
    and res: "solve_classes std_sort d cur M = Some (mrOld, mrNew, opt', plan, freqs)"
  defines "classIds \<equiv> sort (map fst d)"
  defines "ct \<equiv> map (\<lambda>c. cost_row (the (map_of d c)) M) classIds"
  defines "opt \<equiv> fill_missing (allRelevantClassIds_of classIds cur)
                    (reconstruct (snd (dp_tables ct M)) classIds M)"
  shows "mrOld = (if sum_list (map snd freqs) > 0
                  then total_misses d cur / real (sum_list (map snd freqs)) else 0)
       \<and> mrNew = (if sum_list (map snd freqs) > 0
                  then total_misses d opt / real (sum_list (map snd freqs)) else 0)"
proof -
  have cs_set: "set classIds = fst ` set d" and cs_dist: "distinct classIds"
    using d by (simp_all add: classIds_def)
  define freqs0 where "freqs0 = map (\<lambda>c. (c, snd (snd (the (map_of d c))))) classIds"
  have af: "accessFrequencies_loop d classIds [] = Some freqs0"
    using accessFrequencies_loop_eq [of classIds d "[]"] cs_set cs_dist
    by (simp add: freqs0_def)
  have ctl: "costTable_loop d classIds M = Some ct"
    using costTable_loop_eq [of classIds d M] cs_set by (simp add: ct_def)
  define B where "B = snd (dp_tables ct M)"
  define rc where "rc = reconstruct B classIds M"
  define arc where "arc = allRelevantClassIds_of classIds cur"
  have opt: "opt = fill_missing arc rc"
    by (simp add: opt_def arc_def rc_def B_def)
  note fm = fill_missing_props [of arc rc, folded opt]
  have "\<forall>c \<in> set arc. map_of opt c \<noteq> None"
    using fm by (auto simp: map_of_eq_None_iff)
  note mq = move_queues_eq [OF this, of cur "([], [])"]
  define old where "old = (if sum_list (map snd freqs0) > 0
       then total_misses d cur / real (sum_list (map snd freqs0)) else 0)"
  define new where "new = (if sum_list (map snd freqs0) > 0
       then total_misses d opt / real (sum_list (map snd freqs0)) else 0)"
  define plan0 where "plan0 =
      zip (std_sort (score freqs0 cur)
               (concat (map (\<lambda>c. replicate (subscript 0 cur c - subscript 0 opt c) c) arc)))
          (concat (map (\<lambda>c. replicate (subscript 0 opt c - subscript 0 cur c) c) arc))"
  have eq: "solve_classes std_sort d cur M = Some (old, new, opt, plan0, freqs0)"
    unfolding solve_classes_def old_def new_def plan0_def
    by (simp add: classIds_def [symmetric] af ctl B_def [symmetric] arc_def [symmetric]
        rc_def [symmetric] opt [symmetric] mq plan_zip Let_def del: upt_Suc)
  from res [unfolded eq] have "old = mrOld \<and> new = mrNew \<and> opt = opt' \<and> plan0 = plan \<and> freqs0 = freqs"
    by (simp only: option.inject prod.inject)
  then have "mrOld = old" "mrNew = new" "freqs0 = freqs" by simp_all
  then show ?thesis
    unfolding old_def new_def by (simp only: simp_thms)
qed

lemma solve_classes_never_worse:
  assumes d: "distinct (map fst d)" and ne: "d \<noteq> []"
    and curves: "\<forall>(c, e) \<in> set d. curve_entry aps M c e"
    and small: "\<forall>a \<in> snd ` set aps. M * a < 2 ^ 64"
    and dc: "distinct (map fst cur)" and sub: "fst ` set d \<subseteq> fst ` set cur"
    and M: "M = sum_list (map snd cur)"
    and res: "solve_classes std_sort d cur M = Some (mrOld, mrNew, opt, plan, freqs)"
  shows "mrNew \<le> mrOld"
proof -
  define classIds where "classIds = sort (map fst d)"
  define ct where "ct = map (\<lambda>c. cost_row (the (map_of d c)) M) classIds"
  define F where "F = fst (dp_tables ct M)"
  define B where "B = snd (dp_tables ct M)"
  define rc where "rc = reconstruct B classIds M"
  define arc where "arc = allRelevantClassIds_of classIds cur"
  define N where "N = length classIds"
  have cs_set: "set classIds = fst ` set d" and cs_dist: "distinct classIds"
    using d by (simp_all add: classIds_def)
  from ne have N1: "1 \<le> N"
    by (cases d) (simp_all add: classIds_def N_def)
  have ct_len: "length ct = N" by (simp add: ct_def N_def)
  have ok: "dp_ok ct M F B" unfolding F_def B_def by (rule dp_tables_ok)
  \<comment> \<open>the cost table holds the misses of the classes\<close>
  have entry: "\<exists>e. map_of d (classIds ! t) = Some e \<and> curve_entry aps M (classIds ! t) e"
    if "t < N" for t
  proof -
    from that have "classIds ! t \<in> set classIds" by (simp add: N_def)
    then have "classIds ! t \<in> fst ` set d" by (simp only: cs_set)
    from map_of_in_keys [OF this] obtain e where e: "map_of d (classIds ! t) = Some e" ..
    from curves map_of_SomeD [OF e] have "curve_entry aps M (classIds ! t) e" by auto
    with e show ?thesis by (intro exI conjI)
  qed
  have row: "ct ! t = cost_row (the (map_of d (classIds ! t))) M" if "t < N" for t
    using that by (simp add: ct_def N_def)
  have link: "\<forall>t < length ct. \<forall>k \<le> M. class_misses d (classIds ! t, k) = ct ! t ! k"
  proof (intro allI impI)
    fix t k assume t: "t < length ct" and k: "k \<le> M"
    from t have t': "t < N" by (simp add: ct_len)
    from entry [OF t'] obtain e where e: "map_of d (classIds ! t) = Some e" by blast
    show "class_misses d (classIds ! t, k) = ct ! t ! k"
      by (simp add: row [OF t'] e class_misses_def cost_row_nth [OF k])
  qed
  \<comment> \<open>the misses of the chosen allocation\<close>
  note r = solve_classes_rates [OF d ne res, folded classIds_def arc_def]
  from r have old: "mrOld = (if sum_list (map snd freqs) > 0
         then total_misses d cur / real (sum_list (map snd freqs)) else 0)"
    by (rule conjunct1)
  from r have new: "mrNew = (if sum_list (map snd freqs) > 0
         then total_misses d (fill_missing arc rc) / real (sum_list (map snd freqs)) else 0)"
    unfolding rc_def B_def ct_def by (rule conjunct2)
  \<comment> \<open>the current allocation of the classes of the table, and its completion\<close>
  define ks where "ks = map (\<lambda>c. the (map_of cur c)) classIds"
  have lks: "length ks = N" by (simp add: ks_def N_def)
  from sub cs_set have sub': "set classIds \<subseteq> fst ` set cur" by simp
  have "sum_list (map (\<lambda>p. if fst p \<in> set classIds then snd p else 0) cur)
          = sum_list (map (\<lambda>c. if fst (c, the (map_of cur c)) \<in> set classIds
                                then snd (c, the (map_of cur c)) else 0) classIds)"
    by (rule alist_sum_restrict [OF dc cs_dist sub']) simp
  also have "\<dots> = sum_list ks"
    unfolding ks_def by (rule arg_cong [of _ _ sum_list], rule map_cong) simp_all
  finally have "sum_list ks = sum_list (map (\<lambda>p. if fst p \<in> set classIds then snd p else 0) cur)"
    by simp
  also have "\<dots> \<le> sum_list (map snd cur)"
    by (rule sum_list_mono) simp
  finally have sks: "sum_list ks \<le> M" by (simp add: M)
  have ksM: "ks ! t \<le> M" if "t < N" for t
  proof -
    from that lks have "ks ! t \<in> set ks" by simp
    then have "ks ! t \<le> sum_list ks" by (simp add: member_le_sum_list)
    with sks show ?thesis by simp
  qed
  have "total_misses d cur = sum_list (map (class_misses d) cur)"
    by (rule total_misses_sum)
  also have "\<dots> = sum_list (map (\<lambda>c. class_misses d (c, the (map_of cur c))) classIds)"
  proof (rule alist_sum_restrict [OF dc cs_dist sub'], intro ballI impI)
    fix p assume "p \<in> set cur" and "fst p \<notin> set classIds"
    then have "map_of d (fst p) = None"
      using cs_set by (simp add: map_of_eq_None_iff)
    then show "class_misses d p = 0" by (simp add: class_misses_def)
  qed
  also have "\<dots> = (\<Sum>t < N. class_misses d (classIds ! t, ks ! t))"
    unfolding sum_list_sum_nth N_def ks_def
    by (rule sum.cong) (auto simp: atLeast0LessThan)
  also have "\<dots> = (\<Sum>t < N. ct ! t ! (ks ! t))"
    by (rule sum.cong) (use link ksM ct_len in simp_all)
  finally have old_sum: "total_misses d cur = (\<Sum>t < N. ct ! t ! (ks ! t))" .
  define ks' where "ks' = ks[0 := ks ! 0 + (M - sum_list ks)]"
  have lks': "length ks' = N" by (simp add: ks'_def lks)
  from N1 lks have "0 < length ks" by simp
  from sum_list_update [OF this, of "ks ! 0 + (M - sum_list ks)"] sks
  have sks': "sum_list ks' = M" by (simp add: ks'_def)
  have "ks' ! 0 \<in> set ks'" using N1 lks' by simp
  then have "ks' ! 0 \<le> sum_list ks'" by (simp add: member_le_sum_list)
  then have top: "ks ! 0 + (M - sum_list ks) \<le> M"
    using sks' \<open>0 < length ks\<close> by (simp add: ks'_def)
  have le_t: "ct ! t ! (ks' ! t) \<le> ct ! t ! (ks ! t)" if "t < N" for t
  proof (cases "t = 0")
    case True
    from entry [OF that] obtain e where e: "map_of d (classIds ! t) = Some e"
      and c: "curve_entry aps M (classIds ! t) e" by blast
    have r0: "ct ! t = cost_row e M" by (simp add: row [OF that] e)
    have k0: "ks' ! t = ks ! 0 + (M - sum_list ks)"
      using True \<open>0 < length ks\<close> by (simp add: ks'_def)
    have k1: "ks ! t = ks ! 0" using True by simp
    have "cost_row e M ! (ks ! 0 + (M - sum_list ks)) \<le> cost_row e M ! (ks ! 0)"
      by (rule cost_row_antimono [OF c _ top small]) simp
    then show ?thesis
      unfolding r0 k0 k1 .
  next
    case False
    then show ?thesis by (simp add: ks'_def)
  qed
  from N1 have Nct: "N \<le> length ct" by (simp add: ct_len)
  from dp_lower [OF ok lks' Nct] sks' obtain v where
    v: "F ! N ! M = Some v" and vb: "v \<le> (\<Sum>t < N. ct ! t ! (ks' ! t))"
    by auto
  have "(\<Sum>t < N. ct ! t ! (ks' ! t)) \<le> (\<Sum>t < N. ct ! t ! (ks ! t))"
    by (rule sum_mono) (simp add: le_t)
  with vb old_sum have v_old: "v \<le> total_misses d cur" by simp
  \<comment> \<open>the walk back gives exactly the minimum\<close>
  have len: "length classIds = length ct" by (simp add: ct_len N_def)
  from reconstruct_cost [OF ok cs_dist len link Nct order_refl v, of "[]"]
  have "sum_list (map (class_misses d) rc) = v"
    by (simp add: rc_def reconstruct_def N_def)
  then have rcv: "total_misses d rc = v" by (simp add: total_misses_sum)
  have cs_len: "1 \<le> length classIds" using N1 by (simp add: N_def)
  have ctl: "length ct = length classIds" by (simp add: ct_def)
  have le: "\<forall>i \<le> length classIds. \<forall>j \<le> M. B ! i ! j \<le> j"
    using dp_tables_le [of _ ct _ M] by (simp add: B_def ctl)
  have first: "\<forall>j \<le> M. B ! 1 ! j = j"
    using dp_tables_first_row [of ct _ M] cs_len by (simp add: B_def ctl)
  from reconstruct_sum [OF cs_dist cs_len le first]
  have "map fst rc = rev classIds"
    by (simp add: rc_def)
  then have "set (map fst rc) = set classIds" by simp
  then have rc_set: "fst ` set rc = fst ` set d" using cs_set by simp
  have "total_misses d (fill_missing arc rc) = total_misses d rc"
    by (rule fill_missing_misses) (simp add: rc_set map_of_eq_None_iff)
  with rcv v_old have "total_misses d (fill_missing arc rc) \<le> total_misses d cur" by simp
  then show ?thesis
  proof (cases "sum_list (map snd freqs) > 0")
    case True
    from \<open>total_misses d (fill_missing arc rc) \<le> total_misses d cur\<close>
    have "total_misses d (fill_missing arc rc) / real (sum_list (map snd freqs))
            \<le> total_misses d cur / real (sum_list (map snd freqs))"
      by (rule divide_right_mono) simp
    then show ?thesis unfolding old new if_P [OF True] .
  next
    case False
    show ?thesis unfolding old new if_not_P [OF False] by simp
  qed
qed

text \<open>
  The miss rate of the chosen allocation is at most the miss rate of the current one
  whenever every class of the window has an entry in \<open>currentSlabAllocation\<close> (whose keys
  are distinct, as those of a \<open>std::map\<close> are) and no cache size
  \<open>slabCount * allocsPerSlab\<close> overflows \<open>size_t\<close>: the dynamic program returns an
  allocation of the whole budget with the fewest misses, and the current allocation, its
  surplus slabs given to one class, is such an allocation with no more misses than the
  current one. The values are reals, so the slack is zero.
\<close>

theorem dp_never_worse:
  assumes "solveSlabReallocation std_sort st classIdToAllocsPerSlabMap currentSlabAllocation
             = Some (mrOld, mrNew, optimalAllocation, reassignmentPlan, accessFrequencies)"
    and "distinct (map fst currentSlabAllocation)"
    and "snd ` set (snapshot_entries st) \<subseteq> fst ` set currentSlabAllocation"
    and "\<forall>a \<in> snd ` set classIdToAllocsPerSlabMap.
           sum_list (map snd currentSlabAllocation) * a < 2 ^ 64"
  shows "mrNew \<le> mrOld"
proof -
  let ?M = "sum_list (map snd currentSlabAllocation)"
  from queryMrc_curves [of st classIdToAllocsPerSlabMap ?M]
  obtain d where q: "queryMrc st classIdToAllocsPerSlabMap ?M = Some d"
    and keys: "fst ` set d = {c. c \<in> snd ` set (snapshot_entries st)
                    \<and> (\<exists>a. (c, a) \<in> set classIdToAllocsPerSlabMap \<and> a \<noteq> 0)}"
    and dd: "distinct (map fst d)"
    and curves: "\<forall>(c, e) \<in> set d. curve_entry classIdToAllocsPerSlabMap ?M c e"
    by (elim exE conjE)
  from solveSlabReallocation_cases [of st classIdToAllocsPerSlabMap currentSlabAllocation std_sort] q
  have s: "solveSlabReallocation std_sort st classIdToAllocsPerSlabMap currentSlabAllocation
         = (if d = [] then Some (0, 0, [], [], [])
            else solve_classes std_sort d currentSlabAllocation ?M)"
    by simp
  show ?thesis
  proof (cases "d = []")
    case True
    with s assms(1) show ?thesis by simp
  next
    case False
    with s assms(1)
    have r: "solve_classes std_sort d currentSlabAllocation ?M
        = Some (mrOld, mrNew, optimalAllocation, reassignmentPlan, accessFrequencies)"
      by simp
    from keys assms(3) have sub: "fst ` set d \<subseteq> fst ` set currentSlabAllocation" by auto
    show ?thesis
      by (rule solve_classes_never_worse [OF dd False curves assms(4,2) sub refl r])
  qed
qed

theorem dp_never_worse_witness:
  "solveSlabReallocation sort_key example_ring [(1, 1), (2, 1), (3, 1)] [(1, 1), (2, 1), (3, 0)]
     = Some (1, 5 / 8, [(3, 2), (2, 0), (1, 0)], [(2, 3), (1, 3)], [(1, 3), (2, 1), (3, 4)])
   \<and> distinct (map fst [(1 :: ClassId, 1 :: nat), (2, 1), (3, 0)])
   \<and> snd ` set (snapshot_entries example_ring)
        \<subseteq> fst ` set [(1 :: ClassId, 1 :: nat), (2, 1), (3, 0)]
   \<and> (5 / 8 :: real) \<le> 1"
proof -
  have d: "distinct (map fst [(1 :: ClassId, 1 :: nat), (2, 1), (3, 0)])" by simp
  have s: "snd ` set (snapshot_entries example_ring)
        \<subseteq> fst ` set [(1 :: ClassId, 1 :: nat), (2, 1), (3, 0)]"
    by (simp add: example_ring_entries)
  have o: "\<forall>a \<in> snd ` set [(1 :: ClassId, 1 :: nat), (2, 1), (3, 1)].
             sum_list (map snd [(1 :: ClassId, 1 :: nat), (2, 1), (3, 0)]) * a < 2 ^ 64"
    by simp
  from dp_never_worse [OF example_ring_solution d s o] example_ring_solution d s
  show ?thesis by (intro conjI)
qed

end
